theory Spec2Isabelle
  imports Complex_Main "HOL-Library.Word" "HOL-Library.Monad_Syntax"
begin

section \<open>Machine types and memory accesses\<close>

text \<open>
  The C sources are read on an LP64 platform: \<open>int\<close> is a 32-bit two's complement
  integer, \<open>size_t\<close> and \<open>unsigned long\<close> are 64-bit unsigned integers, and a
  \<open>void *\<close> is a 64-bit address with \<open>NULL\<close> the address 0. Keys and values are
  opaque \<open>void *\<close> for the table, so both are addresses here.
\<close>

type_synonym ptr = "64 word"
type_synonym cint = "32 word"
type_synonym size_t = "64 word"

abbreviation NULL :: ptr where
  "NULL \<equiv> 0"

abbreviation INT_MAX :: cint where
  "INT_MAX \<equiv> 2147483647"

text \<open>
  A function of the model that reads or writes the backing array returns an
  \<open>option\<close>: \<open>None\<close> is undefined behaviour of the C program (a read or write
  outside the backing array, a remainder by zero, a signed overflow) or, for the probe
  loops of the open-addressing table, a loop that does not return.

  \<open>arr_read xs i\<close> is the C expression \<open>xs[i]\<close> for an \<open>int\<close> index \<open>i\<close> into an
  allocation of \<open>length xs\<close> elements, \<open>arr_write xs i v\<close> the assignment \<open>xs[i] = v\<close>.
\<close>

definition in_bounds :: "'a list \<Rightarrow> cint \<Rightarrow> bool" where
  "in_bounds xs i \<longleftrightarrow> 0 \<le> sint i \<and> nat (sint i) < length xs"

definition arr_read :: "'a list \<Rightarrow> cint \<Rightarrow> 'a option" where
  "arr_read xs i = (if in_bounds xs i then Some (xs ! nat (sint i)) else None)"

definition arr_write :: "'a list \<Rightarrow> cint \<Rightarrow> 'a \<Rightarrow> 'a list option" where
  "arr_write xs i v = (if in_bounds xs i then Some (xs[nat (sint i) := v]) else None)"

section \<open>The table structure shared by the variants\<close>

text \<open>
  \<open>struct hashmap\<close> has the same fields in the chained table (src/hashmap.c, lines
  1 to 294) and in the open-addressing table (src/unnamed/part_001); only the element
  type of the backing array differs, which is the type parameter here. The field
  \<open>size\<close> of the source is \<open>size_hm\<close>. The backing array is the list of its
  elements, so its allocated length is \<open>length (backing self)\<close>.
\<close>

record 'b hashmap =
  size_hm :: size_t
  nentries :: size_t
  backing :: "'b list"
  hashcode :: "ptr \<Rightarrow> cint"
  equals :: "ptr \<Rightarrow> ptr \<Rightarrow> cint"

definition HASHMAP_INIT_SIZE :: size_t where
  "HASHMAP_INIT_SIZE = 10"

text \<open>
  \<open>compress\<close>: \<open>return hash % hm->size;\<close>. The usual arithmetic conversions turn the
  \<open>int\<close> hash into a \<open>size_t\<close> (sign extension, \<open>scast\<close>), the remainder is
  unsigned, and the \<open>size_t\<close> result is converted to the \<open>int\<close> return type by
  truncation (\<open>ucast\<close>), which is what gcc and clang define for this conversion.
\<close>

definition compress :: "'b hashmap \<Rightarrow> cint \<Rightarrow> cint option" where
  "compress hm hash =
     (if size_hm hm = 0 then None
      else Some (ucast ((scast hash :: size_t) mod size_hm hm)))"

text \<open>\<open>ref_eq\<close>: \<open>return a == b;\<close> and \<open>addr_hash\<close>: \<open>return (int)((unsigned long) key);\<close>.\<close>

definition ref_eq :: "ptr \<Rightarrow> ptr \<Rightarrow> cint" where
  "ref_eq a b = (if a = b then 1 else 0)"

definition addr_hash :: "ptr \<Rightarrow> cint" where
  "addr_hash k = ucast k"

text \<open>
  The load test \<open>(self->nentries * LOAD_FACTOR) >= self->size\<close> with
  \<open>LOAD_FACTOR\<close> 1.5 is a comparison of doubles. Both conversions and the product
  are exact for counts and sizes below \<open>2 ^ 51\<close>, where the test is
  \<open>3 * nentries \<ge> 2 * size\<close> on the integers; that is the definition here.
\<close>

definition load_exceeded :: "'b hashmap \<Rightarrow> bool" where
  "load_exceeded self \<longleftrightarrow> 2 * unat (size_hm self) \<le> 3 * unat (nentries self)"

text \<open>
  \<open>hashmap_init\<close>: the flag \<open>calloc_ok\<close> says whether \<open>calloc\<close> returned memory.
  The function pointers are \<open>None\<close> for a \<open>NULL\<close> argument. The result is whether
  the function returned \<open>self\<close> (and not \<open>NULL\<close>), with the structure afterwards.
\<close>

definition hashmap_init ::
  "bool \<Rightarrow> 'b \<Rightarrow> 'b hashmap \<Rightarrow> (ptr \<Rightarrow> cint) option \<Rightarrow> (ptr \<Rightarrow> ptr \<Rightarrow> cint) option
     \<Rightarrow> bool \<times> 'b hashmap" where
  "hashmap_init calloc_ok zero self hash_func equals_func =
     (if \<not> calloc_ok then (False, self)
      else (True,
        self\<lparr> size_hm := HASHMAP_INIT_SIZE,
              nentries := 0,
              backing := replicate (unat HASHMAP_INIT_SIZE) zero,
              hashcode := (case hash_func of Some f \<Rightarrow> f | None \<Rightarrow> addr_hash),
              equals := (case equals_func of Some f \<Rightarrow> f | None \<Rightarrow> ref_eq) \<rparr>))"

text \<open>
  \<open>hashmap_new\<close>: \<open>fresh\<close> is the content of the memory \<open>malloc\<close> returned, which
  \<open>hashmap_init\<close> overwrites; its result is not looked at. \<open>None\<close> is the \<open>NULL\<close>
  result.
\<close>

definition hashmap_new ::
  "bool \<Rightarrow> bool \<Rightarrow> 'b \<Rightarrow> 'b hashmap \<Rightarrow> (ptr \<Rightarrow> cint) option \<Rightarrow> (ptr \<Rightarrow> ptr \<Rightarrow> cint) option
     \<Rightarrow> 'b hashmap option" where
  "hashmap_new malloc_ok calloc_ok zero fresh hash_func equals_func =
     (if \<not> malloc_ok then None
      else Some (snd (hashmap_init calloc_ok zero fresh hash_func equals_func)))"

definition hashmap_size :: "'b hashmap \<Rightarrow> size_t" where
  "hashmap_size self = nentries self"

section \<open>The chained table (src/hashmap.c, lines 1 to 294)\<close>

text \<open>
  A bucket is a singly linked list of \<open>struct hm_entry_t\<close> nodes, each allocated by
  one \<open>malloc\<close> and owned by one chain; the chain is the list of its nodes from the
  head, the \<open>next\<close> pointer being the tail of the list.
\<close>

record hm_entry_t =
  key :: ptr
  "value" :: ptr

type_synonym chain = "hm_entry_t list"

text \<open>\<open>add_entry\<close>: the node goes to the head of the chain of its bucket.\<close>

definition add_entry :: "chain hashmap \<Rightarrow> hm_entry_t \<Rightarrow> chain hashmap option" where
  "add_entry self entry =
     (case compress self (hashcode self (key entry)) of
        None \<Rightarrow> None
      | Some index \<Rightarrow>
         (case arr_read (backing self) index of
            None \<Rightarrow> None
          | Some head \<Rightarrow> Some (self\<lparr> backing := (backing self)[nat (sint index) := entry # head] \<rparr>)))"

text \<open>
  \<open>resize\<close>: \<open>rehash\<close> is the inner \<open>while (cur)\<close> loop over one old chain,
  \<open>rehash_buckets\<close> the outer \<open>for\<close> loop over the old backing array.
\<close>

fun rehash :: "chain hashmap \<Rightarrow> chain \<Rightarrow> chain hashmap option" where
  "rehash self [] = Some self"
| "rehash self (cur # rest) =
     (case add_entry self cur of None \<Rightarrow> None | Some self' \<Rightarrow> rehash self' rest)"

fun rehash_buckets :: "chain hashmap \<Rightarrow> chain list \<Rightarrow> chain hashmap option" where
  "rehash_buckets self [] = Some self"
| "rehash_buckets self (b # bs) =
     (case rehash self b of None \<Rightarrow> None | Some self' \<Rightarrow> rehash_buckets self' bs)"

definition resize :: "bool \<Rightarrow> chain hashmap \<Rightarrow> size_t \<Rightarrow> (cint \<times> chain hashmap) option" where
  "resize calloc_ok self new_size =
     (if \<not> calloc_ok then Some (0, self)
      else if length (backing self) < unat (size_hm self) then None
      else
        (case rehash_buckets
                (self\<lparr> size_hm := new_size, backing := replicate (unat new_size) [] \<rparr>)
                (take (unat (size_hm self)) (backing self)) of
           None \<Rightarrow> None
         | Some self' \<Rightarrow> Some (1, self')))"

text \<open>The scan \<open>while (cur && !self->equals(cur->key, key)) cur = cur->next;\<close>.\<close>

fun chain_find :: "(ptr \<Rightarrow> ptr \<Rightarrow> cint) \<Rightarrow> ptr \<Rightarrow> chain \<Rightarrow> hm_entry_t option" where
  "chain_find eq k [] = None"
| "chain_find eq k (cur # rest) = (if eq (key cur) k \<noteq> 0 then Some cur else chain_find eq k rest)"

text \<open>
  \<open>hashmap_add\<close>: \<open>calloc_ok\<close> is for the \<open>calloc\<close> of \<open>resize\<close>, \<open>malloc_ok\<close> for
  the \<open>malloc\<close> of the new node. The guard \<open>if (!self)\<close> is the call without a
  table and is not a case of a function of the table.
\<close>

definition hashmap_add ::
  "bool \<Rightarrow> bool \<Rightarrow> chain hashmap \<Rightarrow> ptr \<Rightarrow> ptr \<Rightarrow> (cint \<times> chain hashmap) option" where
  "hashmap_add calloc_ok malloc_ok self k v =
     (case (if load_exceeded self then resize calloc_ok self (size_hm self * 2)
            else Some (1, self)) of
        None \<Rightarrow> None
      | Some (resized, self1) \<Rightarrow>
         if resized = 0 then Some (0, self1)
         else
          (case compress self1 (hashcode self1 k) of
             None \<Rightarrow> None
           | Some index \<Rightarrow>
              (case arr_read (backing self1) index of
                 None \<Rightarrow> None
               | Some head \<Rightarrow>
                  (case chain_find (equals self1) k head of
                     Some cur \<Rightarrow> Some (0, self1)
                   | None \<Rightarrow>
                      if \<not> malloc_ok then Some (0, self1)
                      else
                       (case add_entry self1 \<lparr> key = k, value = v \<rparr> of
                          None \<Rightarrow> None
                        | Some self2 \<Rightarrow> Some (1, self2\<lparr> nentries := nentries self2 + 1 \<rparr>))))))"

text \<open>
  \<open>hashmap_remove\<close>: \<open>chain_remove\<close> is the walk with the pointer to the link
  (\<open>struct hm_entry_t **cur\<close>): it gives the first node whose key matches, if any, and
  the chain without it.
\<close>

fun chain_remove :: "(ptr \<Rightarrow> ptr \<Rightarrow> cint) \<Rightarrow> ptr \<Rightarrow> chain \<Rightarrow> hm_entry_t option \<times> chain" where
  "chain_remove eq k [] = (None, [])"
| "chain_remove eq k (cur # rest) =
     (if eq (key cur) k \<noteq> 0 then (Some cur, rest)
      else (case chain_remove eq k rest of (r, rest') \<Rightarrow> (r, cur # rest')))"

definition hashmap_remove :: "chain hashmap \<Rightarrow> ptr \<Rightarrow> (ptr \<times> chain hashmap) option" where
  "hashmap_remove self k =
     (case compress self (hashcode self k) of
        None \<Rightarrow> None
      | Some index \<Rightarrow>
         (case arr_read (backing self) index of
            None \<Rightarrow> None
          | Some head \<Rightarrow>
             (case chain_remove (equals self) k head of
                (None, _) \<Rightarrow> Some (NULL, self)
              | (Some removed, head') \<Rightarrow>
                 Some (value removed,
                       self\<lparr> backing := (backing self)[nat (sint index) := head'],
                             nentries := nentries self - 1 \<rparr>))))"

definition hashmap_get :: "chain hashmap \<Rightarrow> ptr \<Rightarrow> ptr option" where
  "hashmap_get self k =
     (case compress self (hashcode self k) of
        None \<Rightarrow> None
      | Some i \<Rightarrow>
         (case arr_read (backing self) i of
            None \<Rightarrow> None
          | Some head \<Rightarrow>
             Some (case chain_find (equals self) k head of Some cur \<Rightarrow> value cur | None \<Rightarrow> NULL)))"

definition hashmap_contains :: "chain hashmap \<Rightarrow> ptr \<Rightarrow> cint option" where
  "hashmap_contains self k =
     (case hashmap_get self k of None \<Rightarrow> None | Some p \<Rightarrow> Some (if p \<noteq> NULL then 1 else 0))"

text \<open>
  \<open>hashmap_clear\<close> frees the nodes and the backing array and calls \<open>hashmap_init\<close>,
  whose result it does not look at: when \<open>calloc\<close> fails the table keeps the pointer
  to the freed array, so that every later access is outside any allocation.
\<close>

definition hashmap_clear :: "bool \<Rightarrow> chain hashmap \<Rightarrow> chain hashmap" where
  "hashmap_clear calloc_ok self =
     snd (hashmap_init calloc_ok [] (self\<lparr> backing := [] \<rparr>)
            (Some (hashcode self)) (Some (equals self)))"

section \<open>The open-addressing table (src/unnamed/part_001)\<close>

text \<open>
  A slot of the backing array is a \<open>struct hm_entry_t\<close> with a key, a value and a
  state; \<open>calloc\<close> gives slots of all zero bytes, which are \<open>EMPTY\<close>.
\<close>

datatype entry_state_t = EMPTY | DELETED | ACTIVE

record hm_slot_t = hm_entry_t +
  state :: entry_state_t

definition zero_slot :: hm_slot_t where
  "zero_slot = \<lparr> key = NULL, value = NULL, state = EMPTY \<rparr>"

text \<open>
  \<open>update_index\<close>: \<open>return (index + 1) % hm->size;\<close>. The sum is an \<open>int\<close> sum,
  undefined when it overflows; the remainder is computed as in \<open>compress\<close>.
\<close>

definition update_index :: "'b hashmap \<Rightarrow> cint \<Rightarrow> cint option" where
  "update_index hm index =
     (if index = INT_MAX \<or> size_hm hm = 0 then None
      else Some (ucast ((scast (index + 1) :: size_t) mod size_hm hm)))"

text \<open>
  \<open>add_entry\<close>: \<open>add_entry_probe\<close> is the loop \<open>while (cur.state == ACTIVE)\<close>
  followed by the store \<open>self->backing[index] = *entry\<close>, from the loop variables
  \<open>index\<close> and \<open>cur\<close>. The result is the \<open>int\<close> returned and the table
  afterwards. The last assignment \<open>cur.state = ACTIVE\<close> is to the local copy and
  changes nothing.
\<close>

partial_function (option) add_entry_probe ::
  "hm_slot_t hashmap \<Rightarrow> hm_slot_t \<Rightarrow> cint \<Rightarrow> cint \<Rightarrow> hm_slot_t
     \<Rightarrow> (cint \<times> hm_slot_t hashmap) option" where
  "add_entry_probe self entry index_cycle_flag index cur =
     (if state cur = ACTIVE then
        if equals self (key cur) (key entry) \<noteq> 0 then Some (0, self)
        else
         (case update_index self index of
            None \<Rightarrow> None
          | Some index' \<Rightarrow>
             (case arr_read (backing self) index' of
                None \<Rightarrow> None
              | Some cur' \<Rightarrow>
                 if index' = index_cycle_flag then Some (0, self)
                 else add_entry_probe self entry index_cycle_flag index' cur'))
      else
       (case arr_write (backing self) index entry of
          None \<Rightarrow> None
        | Some b \<Rightarrow> Some (1, self\<lparr> backing := b \<rparr>)))"

declare add_entry_probe.simps [code]

definition add_entry_oa ::
  "hm_slot_t hashmap \<Rightarrow> hm_slot_t \<Rightarrow> (cint \<times> hm_slot_t hashmap) option" where
  "add_entry_oa self entry =
     (case compress self (hashcode self (key entry)) of
        None \<Rightarrow> None
      | Some index \<Rightarrow>
         (case arr_read (backing self) index of
            None \<Rightarrow> None
          | Some cur \<Rightarrow> add_entry_probe self entry index index cur))"

text \<open>
  \<open>resize\<close>: \<open>rehash_oa\<close> is the \<open>for\<close> loop over the old backing array; the
  result of \<open>add_entry\<close> is not looked at.
\<close>

fun rehash_oa :: "hm_slot_t hashmap \<Rightarrow> hm_slot_t list \<Rightarrow> hm_slot_t hashmap option" where
  "rehash_oa self [] = Some self"
| "rehash_oa self (cur # rest) =
     (if state cur = ACTIVE then
        (case add_entry_oa self cur of
           None \<Rightarrow> None
         | Some (added, self') \<Rightarrow> rehash_oa self' rest)
      else rehash_oa self rest)"

definition resize_oa ::
  "bool \<Rightarrow> hm_slot_t hashmap \<Rightarrow> size_t \<Rightarrow> (cint \<times> hm_slot_t hashmap) option" where
  "resize_oa calloc_ok self new_size =
     (if \<not> calloc_ok then Some (0, self)
      else if length (backing self) < unat (size_hm self) then None
      else
        (case rehash_oa
                (self\<lparr> size_hm := new_size, backing := replicate (unat new_size) zero_slot \<rparr>)
                (take (unat (size_hm self)) (backing self)) of
           None \<Rightarrow> None
         | Some self' \<Rightarrow> Some (1, self')))"

text \<open>
  \<open>find_entry\<close>: the result \<open>Some i\<close> is the pointer \<open>&self->backing[i]\<close>,
  \<open>None\<close> is \<open>NULL\<close>.
\<close>

partial_function (option) find_entry_probe ::
  "hm_slot_t hashmap \<Rightarrow> ptr \<Rightarrow> cint \<Rightarrow> cint \<Rightarrow> hm_slot_t \<Rightarrow> cint option option" where
  "find_entry_probe self k index_cycle_flag i cur =
     (if state cur \<noteq> ACTIVE \<or> equals self (key cur) k = 0 then
        if state cur = EMPTY then Some None
        else
         (case update_index self i of
            None \<Rightarrow> None
          | Some i' \<Rightarrow>
             (case arr_read (backing self) i' of
                None \<Rightarrow> None
              | Some cur' \<Rightarrow>
                 if i' = index_cycle_flag then Some None
                 else find_entry_probe self k index_cycle_flag i' cur'))
      else Some (Some i))"

declare find_entry_probe.simps [code]

definition find_entry :: "hm_slot_t hashmap \<Rightarrow> ptr \<Rightarrow> cint option option" where
  "find_entry self k =
     (case compress self (hashcode self k) of
        None \<Rightarrow> None
      | Some i \<Rightarrow>
         (case arr_read (backing self) i of
            None \<Rightarrow> None
          | Some cur \<Rightarrow> find_entry_probe self k i i cur))"

definition hashmap_add_oa ::
  "bool \<Rightarrow> hm_slot_t hashmap \<Rightarrow> ptr \<Rightarrow> ptr \<Rightarrow> (cint \<times> hm_slot_t hashmap) option" where
  "hashmap_add_oa calloc_ok self k v =
     (case (if load_exceeded self then resize_oa calloc_ok self (size_hm self * 2)
            else Some (1, self)) of
        None \<Rightarrow> None
      | Some (resized, self1) \<Rightarrow>
         if resized = 0 then Some (0, self1)
         else
          (case add_entry_oa self1 \<lparr> key = k, value = v, state = ACTIVE \<rparr> of
             None \<Rightarrow> None
           | Some (added, self2) \<Rightarrow>
              if added = 0 then Some (0, self2)
              else Some (1, self2\<lparr> nentries := nentries self2 + 1 \<rparr>)))"

definition hashmap_remove_oa :: "hm_slot_t hashmap \<Rightarrow> ptr \<Rightarrow> (ptr \<times> hm_slot_t hashmap) option" where
  "hashmap_remove_oa self k =
     (case find_entry self k of
        None \<Rightarrow> None
      | Some None \<Rightarrow> Some (NULL, self)
      | Some (Some i) \<Rightarrow>
         (case arr_read (backing self) i of
            None \<Rightarrow> None
          | Some cur \<Rightarrow>
             if state cur = EMPTY then Some (NULL, self)
             else
              (case arr_write (backing self) i (cur\<lparr> state := DELETED \<rparr>) of
                 None \<Rightarrow> None
               | Some b \<Rightarrow>
                  Some (value cur, self\<lparr> backing := b, nentries := nentries self - 1 \<rparr>))))"

definition hashmap_get_oa :: "hm_slot_t hashmap \<Rightarrow> ptr \<Rightarrow> ptr option" where
  "hashmap_get_oa self k =
     (case find_entry self k of
        None \<Rightarrow> None
      | Some None \<Rightarrow> Some NULL
      | Some (Some i) \<Rightarrow>
         (case arr_read (backing self) i of
            None \<Rightarrow> None
          | Some cur \<Rightarrow> Some (if state cur = ACTIVE then value cur else NULL)))"

definition hashmap_contains_oa :: "hm_slot_t hashmap \<Rightarrow> ptr \<Rightarrow> cint option" where
  "hashmap_contains_oa self k =
     (case hashmap_get_oa self k of None \<Rightarrow> None | Some p \<Rightarrow> Some (if p \<noteq> NULL then 1 else 0))"

definition hashmap_clear_oa :: "bool \<Rightarrow> hm_slot_t hashmap \<Rightarrow> hm_slot_t hashmap" where
  "hashmap_clear_oa calloc_ok self =
     snd (hashmap_init calloc_ok zero_slot (self\<lparr> backing := [] \<rparr>)
            (Some (hashcode self)) (Some (equals self)))"

section \<open>Scenarios\<close>

text \<open>
  The tables below are built by the public functions alone, from \<open>hashmap_new\<close>
  with both function pointers \<open>NULL\<close> (so the hash is \<open>addr_hash\<close> and the
  equality \<open>ref_eq\<close>, as in the tests' \<open>hashmap_new(NULL, NULL)\<close>) and with every
  allocation succeeding. \<open>fresh_mem\<close> is what the memory from \<open>malloc\<close> holds
  before \<open>hashmap_init\<close> writes every field.
\<close>

definition fresh_mem :: "'b hashmap" where
  "fresh_mem =
     \<lparr> size_hm = 0, nentries = 0, backing = [], hashcode = (\<lambda>k. 0), equals = (\<lambda>a b. 0) \<rparr>"

definition live_slots :: "hm_slot_t hashmap \<Rightarrow> hm_slot_t list" where
  "live_slots self = filter (\<lambda>e. state e = ACTIVE) (backing self)"

text \<open>
  Open addressing: keys 9 and 19 both compress to index 9 of the ten slots. After
  \<open>add 9\<close>, \<open>add 19\<close>, \<open>remove 9\<close> slot 9 is a tombstone and key 19 lives in
  slot 0, where the probe wrapped around.
\<close>

definition tombstone_table :: "hm_slot_t hashmap option" where
  "tombstone_table = do {
     t0 \<leftarrow> hashmap_new True True zero_slot fresh_mem None None;
     (r1, t1) \<leftarrow> hashmap_add_oa True t0 9 1;
     (r2, t2) \<leftarrow> hashmap_add_oa True t1 19 2;
     (r3, t3) \<leftarrow> hashmap_remove_oa t2 9;
     Some t3
   }"

text \<open>The same table after one more \<open>add 19\<close>, with another value.\<close>

definition duplicate_table :: "hm_slot_t hashmap option" where
  "duplicate_table = do {
     t3 \<leftarrow> tombstone_table;
     (r4, t4) \<leftarrow> hashmap_add_oa True t3 19 3;
     Some t4
   }"

text \<open>Five more keys bring the count to 7, so that the next \<open>add\<close> resizes.\<close>

definition loaded_table :: "hm_slot_t hashmap option" where
  "loaded_table = do {
     t4 \<leftarrow> duplicate_table;
     (r5, t5) \<leftarrow> hashmap_add_oa True t4 1 11;
     (r6, t6) \<leftarrow> hashmap_add_oa True t5 2 12;
     (r7, t7) \<leftarrow> hashmap_add_oa True t6 3 13;
     (r8, t8) \<leftarrow> hashmap_add_oa True t7 4 14;
     (r9, t9) \<leftarrow> hashmap_add_oa True t8 5 15;
     Some t9
   }"

definition grown_table :: "hm_slot_t hashmap option" where
  "grown_table = do {
     t9 \<leftarrow> loaded_table;
     (r10, t10) \<leftarrow> hashmap_add_oa True t9 6 16;
     Some t10
   }"

text \<open>A table of each variant that maps key 5 to the value \<open>NULL\<close>.\<close>

definition null_value_table :: "chain hashmap option" where
  "null_value_table = do {
     t0 \<leftarrow> hashmap_new True True [] fresh_mem None None;
     (r1, t1) \<leftarrow> hashmap_add True True t0 5 NULL;
     Some t1
   }"

definition null_value_table_oa :: "hm_slot_t hashmap option" where
  "null_value_table_oa = do {
     t0 \<leftarrow> hashmap_new True True zero_slot fresh_mem None None;
     (r1, t1) \<leftarrow> hashmap_add_oa True t0 5 NULL;
     Some t1
   }"

text \<open>A chained table of ten buckets holding the seven keys 1 to 7.\<close>

definition seven_table :: "chain hashmap option" where
  "seven_table = do {
     t0 \<leftarrow> hashmap_new True True [] fresh_mem None None;
     (r1, t1) \<leftarrow> hashmap_add True True t0 1 11;
     (r2, t2) \<leftarrow> hashmap_add True True t1 2 12;
     (r3, t3) \<leftarrow> hashmap_add True True t2 3 13;
     (r4, t4) \<leftarrow> hashmap_add True True t3 4 14;
     (r5, t5) \<leftarrow> hashmap_add True True t4 5 15;
     (r6, t6) \<leftarrow> hashmap_add True True t5 6 16;
     (r7, t7) \<leftarrow> hashmap_add True True t6 7 17;
     Some t7
   }"

text \<open>
  A chained table whose capacity is \<open>10 * 2 ^ 28\<close>, the twenty-eighth doubling of
  the initial capacity 10, with as many buckets and every chain empty: \<open>add\<close>
  doubles the capacity without a bound, and \<open>remove\<close> never shrinks it.
\<close>

definition huge_table :: "chain hashmap" where
  "huge_table =
     \<lparr> size_hm = 2684354560, nentries = 0, backing = replicate 2684354560 [],
       hashcode = addr_hash, equals = ref_eq \<rparr>"

text \<open>
  The chained table of \<open>seven_table\<close> written out, and an open-addressing table
  with the same seven keys.
\<close>

definition seven_chains :: "chain hashmap" where
  "seven_chains =
     \<lparr> size_hm = 10, nentries = 7,
       backing = [[], [\<lparr> key = 1, value = 11 \<rparr>], [\<lparr> key = 2, value = 12 \<rparr>],
                  [\<lparr> key = 3, value = 13 \<rparr>], [\<lparr> key = 4, value = 14 \<rparr>],
                  [\<lparr> key = 5, value = 15 \<rparr>], [\<lparr> key = 6, value = 16 \<rparr>],
                  [\<lparr> key = 7, value = 17 \<rparr>], [], []],
       hashcode = addr_hash, equals = ref_eq \<rparr>"

definition seven_slots :: "hm_slot_t hashmap" where
  "seven_slots =
     \<lparr> size_hm = 10, nentries = 7,
       backing = [zero_slot,
                  \<lparr> key = 1, value = 11, state = ACTIVE \<rparr>,
                  \<lparr> key = 2, value = 12, state = ACTIVE \<rparr>,
                  \<lparr> key = 3, value = 13, state = ACTIVE \<rparr>,
                  \<lparr> key = 4, value = 14, state = ACTIVE \<rparr>,
                  \<lparr> key = 5, value = 15, state = ACTIVE \<rparr>,
                  \<lparr> key = 6, value = 16, state = ACTIVE \<rparr>,
                  \<lparr> key = 7, value = 17, state = ACTIVE \<rparr>,
                  zero_slot, zero_slot],
       hashcode = addr_hash, equals = ref_eq \<rparr>"

text \<open>
  The chained table of \<open>null_value_table\<close> written out, and the open-addressing
  table after \<open>add(9, 1)\<close>, \<open>add(19, NULL)\<close>, \<open>remove(9)\<close>: key 19 is mapped
  to \<open>NULL\<close> and sits in slot 0, behind the tombstone in slot 9.
\<close>

definition null_chains :: "chain hashmap" where
  "null_chains =
     \<lparr> size_hm = 10, nentries = 1,
       backing = [[], [], [], [], [], [\<lparr> key = 5, value = NULL \<rparr>], [], [], [], []],
       hashcode = addr_hash, equals = ref_eq \<rparr>"

definition null_slots :: "hm_slot_t hashmap" where
  "null_slots =
     \<lparr> size_hm = 10, nentries = 1,
       backing = [\<lparr> key = 19, value = NULL, state = ACTIVE \<rparr>,
                  zero_slot, zero_slot, zero_slot, zero_slot,
                  zero_slot, zero_slot, zero_slot, zero_slot,
                  \<lparr> key = 9, value = 1, state = DELETED \<rparr>],
       hashcode = addr_hash, equals = ref_eq \<rparr>"

definition null_slots_table :: "hm_slot_t hashmap option" where
  "null_slots_table = do {
     t0 \<leftarrow> hashmap_new True True zero_slot fresh_mem None None;
     (r1, t1) \<leftarrow> hashmap_add_oa True t0 9 1;
     (r2, t2) \<leftarrow> hashmap_add_oa True t1 19 NULL;
     (r3, t3) \<leftarrow> hashmap_remove_oa t2 9;
     Some t3
   }"

text \<open>
  The loop of \<open>test_add_immediate_remove\<close> (src/hashmap_tests.c, lines 196 to
  202) on the open-addressing table, for \<open>num_items\<close> rounds from the key
  \<open>as_key(i)\<close>: each round adds the key with itself as the value and removes it
  again. The result is \<open>None\<close> when one of the four assertions of a round fails
  (or the behaviour is undefined), and the table after the last round otherwise.
\<close>

fun test_add_immediate_remove ::
  "nat \<Rightarrow> ptr \<Rightarrow> hm_slot_t hashmap \<Rightarrow> hm_slot_t hashmap option" where
  "test_add_immediate_remove 0 i hm = Some hm"
| "test_add_immediate_remove (Suc num_items) i hm =
     (case hashmap_add_oa True hm i i of
        None \<Rightarrow> None
      | Some (added, hm1) \<Rightarrow>
         if added = 0 \<or> hashmap_size hm1 \<noteq> 1 then None
         else
          (case hashmap_remove_oa hm1 i of
             None \<Rightarrow> None
           | Some (removed, hm2) \<Rightarrow>
              if removed \<noteq> i \<or> hashmap_size hm2 \<noteq> 0 then None
              else test_add_immediate_remove num_items (i + 1) hm2))"

text \<open>
  Two more open-addressing tables of ten slots, written out. In \<open>wrapped_slots\<close>
  the keys 9 and 19, which both start their probe at index 9, are live: key 19 sits
  in slot 0, where the probe wrapped around. In \<open>full_slots\<close> every slot is
  \<open>ACTIVE\<close>.
\<close>

definition wrapped_slots :: "hm_slot_t hashmap" where
  "wrapped_slots =
     \<lparr> size_hm = 10, nentries = 2,
       backing = [\<lparr> key = 19, value = 2, state = ACTIVE \<rparr>,
                  zero_slot, zero_slot, zero_slot, zero_slot,
                  zero_slot, zero_slot, zero_slot, zero_slot,
                  \<lparr> key = 9, value = 1, state = ACTIVE \<rparr>],
       hashcode = addr_hash, equals = ref_eq \<rparr>"

definition full_slots :: "hm_slot_t hashmap" where
  "full_slots =
     \<lparr> size_hm = 10, nentries = 10,
       backing = [\<lparr> key = 10, value = 20, state = ACTIVE \<rparr>,
                  \<lparr> key = 1, value = 11, state = ACTIVE \<rparr>,
                  \<lparr> key = 2, value = 12, state = ACTIVE \<rparr>,
                  \<lparr> key = 3, value = 13, state = ACTIVE \<rparr>,
                  \<lparr> key = 4, value = 14, state = ACTIVE \<rparr>,
                  \<lparr> key = 5, value = 15, state = ACTIVE \<rparr>,
                  \<lparr> key = 6, value = 16, state = ACTIVE \<rparr>,
                  \<lparr> key = 7, value = 17, state = ACTIVE \<rparr>,
                  \<lparr> key = 8, value = 18, state = ACTIVE \<rparr>,
                  \<lparr> key = 9, value = 19, state = ACTIVE \<rparr>],
       hashcode = addr_hash, equals = ref_eq \<rparr>"

section \<open>Well-formed tables\<close>

text \<open>
  \<open>bucket_index self k\<close> is the remainder that \<open>compress\<close> computes for the hash
  of \<open>k\<close>, as a natural number.

  A table is well formed when its capacity is not zero, fits the \<open>int\<close> indices of
  the source with room for \<open>index + 1\<close>, and is the number of elements of the backing
  array. \<open>hashmap_init\<close> and \<open>resize\<close> set the capacity and the array together.
\<close>

definition bucket_index :: "'b hashmap \<Rightarrow> ptr \<Rightarrow> nat" where
  "bucket_index self k = unat ((scast (hashcode self k) :: size_t) mod size_hm self)"

definition wf_table :: "'b hashmap \<Rightarrow> bool" where
  "wf_table self \<longleftrightarrow>
     size_hm self \<noteq> 0 \<and> uint (size_hm self) < 2 ^ 31
     \<and> length (backing self) = unat (size_hm self)"

text \<open>What an operation leaves as it was: the functions and the count; the shape too.\<close>

definition same_fields :: "'b hashmap \<Rightarrow> 'b hashmap \<Rightarrow> bool" where
  "same_fields t self \<longleftrightarrow>
     hashcode t = hashcode self \<and> equals t = equals self \<and> nentries t = nentries self"

definition same_shape :: "'b hashmap \<Rightarrow> 'b hashmap \<Rightarrow> bool" where
  "same_shape t self \<longleftrightarrow>
     size_hm t = size_hm self \<and> length (backing t) = length (backing self)
     \<and> same_fields t self"

text \<open>
  What the table expects of the caller's functions: keys that are equal have the same
  hash, and the equality is symmetric and transitive. \<open>ref_eq\<close> with \<open>addr_hash\<close>
  is such a pair.
\<close>

definition hash_respects :: "'b hashmap \<Rightarrow> bool" where
  "hash_respects self \<longleftrightarrow>
     (\<forall>a b. equals self a b \<noteq> 0 \<longrightarrow> hashcode self a = hashcode self b)"

definition equals_sym :: "'b hashmap \<Rightarrow> bool" where
  "equals_sym self \<longleftrightarrow> (\<forall>a b. equals self a b \<noteq> 0 \<longrightarrow> equals self b a \<noteq> 0)"

definition equals_trans :: "'b hashmap \<Rightarrow> bool" where
  "equals_trans self \<longleftrightarrow>
     (\<forall>a b c. equals self a b \<noteq> 0 \<longrightarrow> equals self b c \<noteq> 0 \<longrightarrow> equals self a c \<noteq> 0)"

text \<open>
  The chained table: its live entries are the nodes of all chains; every node is in
  the chain of its key's bucket (\<open>placed\<close>); no two nodes have equal keys
  (\<open>unique_keys\<close>); a key is present when a node has a key equal to it.
\<close>

definition entries :: "chain hashmap \<Rightarrow> hm_entry_t list" where
  "entries self = concat (backing self)"

definition placed :: "chain hashmap \<Rightarrow> bool" where
  "placed self \<longleftrightarrow>
     (\<forall>i < length (backing self). \<forall>e \<in> set (backing self ! i). bucket_index self (key e) = i)"

definition unique_keys :: "chain hashmap \<Rightarrow> bool" where
  "unique_keys self \<longleftrightarrow>
     (\<forall>i < length (entries self). \<forall>j < length (entries self).
        i \<noteq> j \<longrightarrow> equals self (key (entries self ! i)) (key (entries self ! j)) = 0)"

definition present :: "chain hashmap \<Rightarrow> ptr \<Rightarrow> bool" where
  "present self k \<longleftrightarrow> (\<exists>e \<in> set (entries self). equals self (key e) k \<noteq> 0)"

text \<open>
  The open-addressing table: \<open>probe_index self k j\<close> is the slot that the probe of
  key \<open>k\<close> looks at after \<open>j\<close> steps. The key is found at step \<open>j\<close> when that slot
  is \<open>ACTIVE\<close> with an equal key and the probe gets there: within one cycle, over
  slots that are not \<open>EMPTY\<close> and do not hold an equal key.
\<close>

definition probe_index :: "'b hashmap \<Rightarrow> ptr \<Rightarrow> nat \<Rightarrow> nat" where
  "probe_index self k j = (bucket_index self k + j) mod unat (size_hm self)"

definition found_at :: "hm_slot_t hashmap \<Rightarrow> ptr \<Rightarrow> nat \<Rightarrow> bool" where
  "found_at self k j \<longleftrightarrow>
     j < unat (size_hm self)
     \<and> state (backing self ! probe_index self k j) = ACTIVE
     \<and> equals self (key (backing self ! probe_index self k j)) k \<noteq> 0
     \<and> (\<forall>m < j. state (backing self ! probe_index self k m) \<noteq> EMPTY
            \<and> (state (backing self ! probe_index self k m) = ACTIVE
                 \<longrightarrow> equals self (key (backing self ! probe_index self k m)) k = 0))"

text \<open>
  For the insertion probe: \<open>probe_slot self k j\<close> is the slot that the probe of
  key \<open>k\<close> looks at after \<open>j\<close> steps; the probe has \<open>passed\<close> its first
  \<open>j\<close> slots when each of them is \<open>ACTIVE\<close> with a key that the equality
  tells apart from \<open>k\<close>; \<open>k\<close> is a \<open>live_key\<close> when some \<open>ACTIVE\<close>
  slot of the table holds a key equal to it.
\<close>

definition probe_slot :: "hm_slot_t hashmap \<Rightarrow> ptr \<Rightarrow> nat \<Rightarrow> hm_slot_t" where
  "probe_slot self k j = backing self ! probe_index self k j"

definition passed :: "hm_slot_t hashmap \<Rightarrow> ptr \<Rightarrow> nat \<Rightarrow> bool" where
  "passed self k j \<longleftrightarrow>
     (\<forall>m < j. state (probe_slot self k m) = ACTIVE
               \<and> equals self (key (probe_slot self k m)) k = 0)"

definition live_key :: "hm_slot_t hashmap \<Rightarrow> ptr \<Rightarrow> bool" where
  "live_key self k \<longleftrightarrow>
     (\<exists>s \<in> set (backing self). state s = ACTIVE \<and> equals self (key s) k \<noteq> 0)"

text \<open>
  The invariant of the chained table: it is well formed, its nodes are placed and have
  pairwise unequal keys, and the count is the number of nodes and stays within the
  load that \<open>add\<close> allows. \<open>unequal_keys\<close> is the relation between two nodes
  that the equality, asked either way, tells apart.
\<close>

definition unequal_keys :: "(ptr \<Rightarrow> ptr \<Rightarrow> cint) \<Rightarrow> hm_entry_t \<Rightarrow> hm_entry_t \<Rightarrow> bool" where
  "unequal_keys eq a b \<longleftrightarrow> eq (key a) (key b) = 0 \<and> eq (key b) (key a) = 0"

definition counted :: "chain hashmap \<Rightarrow> bool" where
  "counted self \<longleftrightarrow>
     unat (nentries self) = length (entries self)
     \<and> 3 * length (entries self) < 2 * unat (size_hm self) + 3"

definition chained_invariant :: "chain hashmap \<Rightarrow> bool" where
  "chained_invariant self \<longleftrightarrow> wf_table self \<and> placed self \<and> unique_keys self \<and> counted self"

definition same_callbacks :: "'b hashmap \<Rightarrow> 'b hashmap \<Rightarrow> bool" where
  "same_callbacks t self \<longleftrightarrow> hashcode t = hashcode self \<and> equals t = equals self"

text \<open>
  The chained tables that the public functions reach from \<open>hashmap_new\<close>, with
  \<open>add\<close> called at capacities below \<open>2 ^ 30\<close> and \<open>clear\<close> getting its memory.
\<close>

inductive reachable :: "chain hashmap \<Rightarrow> bool" where
  new: "hashmap_new True True [] fresh hash_func equals_func = Some t \<Longrightarrow> reachable t"
| add: "reachable t \<Longrightarrow> uint (size_hm t) < 2 ^ 30
         \<Longrightarrow> hashmap_add calloc_ok malloc_ok t k v = Some (r, t') \<Longrightarrow> reachable t'"
| remove: "reachable t \<Longrightarrow> hashmap_remove t k = Some (p, t') \<Longrightarrow> reachable t'"
| clear: "reachable t \<Longrightarrow> reachable (hashmap_clear True t)"

section \<open>Conversions between the integer types\<close>

lemma sint_ucast_small:
  fixes w :: size_t
  assumes "uint w < 2 ^ 31"
  shows "sint (ucast w :: cint) = uint w"
proof -
  have "- (2 ^ 31) \<le> (0 :: int)"
    by simp
  also have "0 \<le> uint w"
    by (rule uint_nonnegative)
  finally have "signed_take_bit 31 (uint w) = uint w"
    using assms by (rule signed_take_bit_int_eq_self)
  then show ?thesis
    by (simp add: signed_ucast_eq)
qed

lemma uint_mod_less:
  fixes w s :: size_t
  assumes "s \<noteq> 0"
  shows "uint (w mod s) < uint s"
proof -
  have "uint s \<noteq> 0"
    using assms by (simp add: uint_0_iff)
  then have "0 < uint s"
    using uint_nonnegative [of s] by linarith
  then show ?thesis
    by (simp add: uint_mod)
qed

lemma sint_ucast_mod:
  fixes w s :: size_t
  assumes "s \<noteq> 0" and "uint s \<le> 2 ^ 31"
  shows "sint (ucast (w mod s) :: cint) = uint (w mod s)"
    and "0 \<le> sint (ucast (w mod s) :: cint)"
    and "sint (ucast (w mod s) :: cint) < uint s"
proof -
  have less: "uint (w mod s) < uint s"
    by (rule uint_mod_less) (rule assms)
  then have "uint (w mod s) < 2 ^ 31"
    using assms(2) by linarith
  then show eq: "sint (ucast (w mod s) :: cint) = uint (w mod s)"
    by (rule sint_ucast_small)
  show "0 \<le> sint (ucast (w mod s) :: cint)"
    unfolding eq by (rule uint_nonnegative)
  show "sint (ucast (w mod s) :: cint) < uint s"
    unfolding eq by (rule less)
qed

lemma sint_INT_MAX: "sint INT_MAX = 2 ^ 31 - 1"
  by simp

lemma sint_succ:
  fixes i :: cint
  assumes "0 \<le> sint i" and "sint i < 2 ^ 31 - 1"
  shows "sint (i + 1) = sint i + 1"
proof -
  have "sint (i + 1) = signed_take_bit 31 (sint i + sint (1 :: cint))"
    using sint_word_ariths(1) [of i 1] by simp
  also have "sint (1 :: cint) = 1"
    by simp
  also have "signed_take_bit 31 (sint i + 1) = sint i + 1"
  proof (rule signed_take_bit_int_eq_self)
    have "- (2 ^ 31) \<le> (0 :: int)"
      by simp
    also have "0 \<le> sint i + 1"
      using assms(1) by simp
    finally show "- (2 ^ 31) \<le> sint i + 1" .
    show "sint i + 1 < 2 ^ 31"
      using assms(2) by simp
  qed
  finally show ?thesis .
qed

lemma uint_scast_nonneg:
  fixes h :: cint
  assumes "0 \<le> sint h"
  shows "uint (scast h :: size_t) = sint h"
proof -
  have "sint h < 2 ^ 31"
    using sint_lt [of h] by simp
  also have "(2 :: int) ^ 31 \<le> 2 ^ 64"
    by simp
  finally have "take_bit 64 (sint h) = sint h"
    using assms by (simp add: take_bit_int_eq_self)
  moreover have "uint (word_of_int (sint h) :: size_t) = take_bit 64 (sint h)"
    by (simp only: uint_word_of_int_eq len_bit0 len_num1) simp
  moreover have "(scast h :: size_t) = word_of_int (sint h)"
    by (rule scast_eq)
  ultimately show ?thesis
    by (simp only:)
qed

lemma index_eq_iff:
  fixes i j :: cint
  assumes "0 \<le> sint i" and "0 \<le> sint j"
  shows "i = j \<longleftrightarrow> nat (sint i) = nat (sint j)"
proof
  assume "nat (sint i) = nat (sint j)"
  with assms have "sint i = sint j"
    by simp
  then show "i = j"
    by (rule signed_word_eqI)
qed simp

lemma double_size:
  fixes s :: size_t
  assumes "s \<noteq> 0" and "uint s < 2 ^ 30"
  shows "s * 2 \<noteq> 0" and "uint (s * 2) < 2 ^ 31" and "unat (s * 2) = 2 * unat s"
    and "uint (s * 2) = 2 * uint s"
proof -
  have "uint s * 2 < 2 ^ 64"
    using assms(2) by simp
  then have u: "uint (s * 2) = uint s * 2"
    using uint_mult_lem [of s 2] by simp
  then show "uint (s * 2) = 2 * uint s"
    by simp
  show "uint (s * 2) < 2 ^ 31"
    using u assms(2) by simp
  have "uint s \<noteq> 0"
    using assms(1) by (simp add: uint_0_iff)
  then have "uint (s * 2) \<noteq> 0"
    using u by simp
  then show "s * 2 \<noteq> 0"
    by (simp add: uint_0_iff)
  have "nat (uint (s * 2)) = 2 * nat (uint s)"
    using u by (simp add: nat_mult_distrib)
  then show "unat (s * 2) = 2 * unat s"
    by simp
qed

lemma mod_shift_neq:
  fixes h d n :: nat
  assumes "h < n" and "0 < d" and "d < n"
  shows "(h + d) mod n \<noteq> h"
proof (cases "h + d < n")
  case True
  with assms(2) show ?thesis
    by simp
next
  case False
  then have "(h + d) mod n = (h + d - n) mod n"
    by (simp add: le_mod_geq)
  also have "\<dots> = h + d - n"
    using assms(1,3) by simp
  finally show ?thesis
    using assms(3) False by simp
qed

section \<open>The range of compress\<close>

text \<open>
  Up to a capacity of \<open>2 ^ 31\<close> the remainder fits the \<open>int\<close> that
  \<open>compress\<close> returns: the index is at least 0 and below the capacity for every
  hash value, the negative ones too, and the access to that element of a backing array
  of as many elements is in bounds.
\<close>

lemma compress_in_range:
  assumes "size_hm hm \<noteq> 0" and "uint (size_hm hm) \<le> 2 ^ 31"
    and "length (backing hm) = unat (size_hm hm)"
  shows "\<exists>i. compress hm hash = Some i \<and> 0 \<le> sint i \<and> sint i < uint (size_hm hm)
           \<and> in_bounds (backing hm) i"
proof -
  let ?i = "ucast ((scast hash :: size_t) mod size_hm hm) :: cint"
  have c: "compress hm hash = Some ?i"
    using assms(1) by (simp add: compress_def)
  have lo: "0 \<le> sint ?i" and hi: "sint ?i < uint (size_hm hm)"
    using assms(1,2) by (rule sint_ucast_mod)+
  have "nat (sint ?i) < unat (size_hm hm)"
    using lo hi by (simp add: nat_less_iff)
  then have "in_bounds (backing hm) ?i"
    using lo assms(3) by (simp add: in_bounds_def)
  with c lo hi show ?thesis
    by blast
qed

text \<open>
  Claim C9. For every hash value and every nonzero capacity \<open>compress\<close> gives an
  index from 0 to the capacity minus 1, so that every bucket access is in bounds.
  \<open>huge_table\<close> has the capacity \<open>10 * 2 ^ 28\<close> and as many buckets. The key
  \<open>0x9FFFFFFF\<close> has the hash \<open>- 1610612737\<close> under \<open>addr_hash\<close>; the
  remainder is \<open>2684354559\<close>, below the capacity, and the \<open>int\<close> that
  \<open>compress\<close> returns for it is \<open>- 1610612737\<close>. The access
  \<open>self->backing[index]\<close> of \<open>hashmap_get\<close> at that index is out of bounds.
\<close>

theorem compress_out_of_range:
  "size_hm huge_table = 2684354560
   \<and> length (backing huge_table) = unat (size_hm huge_table)
   \<and> hashcode huge_table 2684354559 = - 1610612737
   \<and> (scast (- 1610612737 :: cint) :: size_t) mod size_hm huge_table = 2684354559
   \<and> map_option sint (compress huge_table (hashcode huge_table 2684354559))
       = Some (- 1610612737)
   \<and> map_option (in_bounds (backing huge_table))
         (compress huge_table (hashcode huge_table 2684354559)) = Some False
   \<and> hashmap_get huge_table 2684354559 = None"
  by (simp add: huge_table_def compress_def addr_hash_def in_bounds_def arr_read_def
      hashmap_get_def)

section \<open>Indices of a well-formed table\<close>

lemma wf_size_pos: "wf_table self \<Longrightarrow> 0 < unat (size_hm self)"
  by (simp add: wf_table_def unat_gt_0)

lemma wf_compress:
  assumes "wf_table self"
  shows "\<exists>i. compress self (hashcode self k) = Some i \<and> 0 \<le> sint i
           \<and> nat (sint i) = bucket_index self k
           \<and> bucket_index self k < length (backing self)"
proof -
  let ?w = "(scast (hashcode self k) :: size_t) mod size_hm self"
  let ?i = "ucast ?w :: cint"
  from assms have nz: "size_hm self \<noteq> 0" and le: "uint (size_hm self) \<le> 2 ^ 31"
    and len: "length (backing self) = unat (size_hm self)"
    by (simp_all add: wf_table_def)
  have c: "compress self (hashcode self k) = Some ?i"
    using nz by (simp add: compress_def)
  have eq: "sint ?i = uint ?w" and lo: "0 \<le> sint ?i" and hi: "sint ?i < uint (size_hm self)"
    using nz le by (rule sint_ucast_mod)+
  have n: "nat (sint ?i) = bucket_index self k"
    by (simp add: eq bucket_index_def)
  have "nat (sint ?i) < unat (size_hm self)"
    using lo hi by (simp add: nat_less_iff)
  with c lo n len show ?thesis
    by auto
qed

lemma wf_bucket_index_less:
  "wf_table self \<Longrightarrow> bucket_index self k < length (backing self)"
  using wf_compress [of self k] by blast

lemma wf_read_bucket:
  assumes "wf_table self"
  obtains i where "compress self (hashcode self k) = Some i"
    and "nat (sint i) = bucket_index self k"
    and "arr_read (backing self) i = Some (backing self ! bucket_index self k)"
proof -
  from wf_compress [OF assms, of k] obtain i where
    i: "compress self (hashcode self k) = Some i" "0 \<le> sint i"
       "nat (sint i) = bucket_index self k" "bucket_index self k < length (backing self)"
    by blast
  then have "arr_read (backing self) i = Some (backing self ! bucket_index self k)"
    by (simp add: arr_read_def in_bounds_def)
  with i(1,3) show thesis
    by (rule that)
qed

lemma update_index_eq:
  assumes "wf_table self" and "0 \<le> sint i" and "nat (sint i) < unat (size_hm self)"
  shows "\<exists>i'. update_index self i = Some i' \<and> 0 \<le> sint i'
           \<and> nat (sint i') = (nat (sint i) + 1) mod unat (size_hm self)"
proof -
  let ?s = "size_hm self"
  let ?w = "scast (i + 1) :: size_t"
  let ?i' = "ucast (?w mod ?s) :: cint"
  from assms(1) have nz: "?s \<noteq> 0" and lt: "uint ?s < 2 ^ 31"
    by (simp_all add: wf_table_def)
  have le: "uint ?s \<le> 2 ^ 31"
    using lt by simp
  have "sint i < uint ?s"
    using assms(2,3) by (simp add: nat_less_iff)
  then have small: "sint i < 2 ^ 31 - 1"
    using lt by linarith
  then have "sint i \<noteq> sint INT_MAX"
    by simp
  then have "i \<noteq> INT_MAX"
    by auto
  then have u: "update_index self i = Some ?i'"
    using nz by (simp add: update_index_def)
  have s1: "sint (i + 1) = sint i + 1"
    using assms(2) small by (rule sint_succ)
  then have "0 \<le> sint (i + 1)"
    using assms(2) by simp
  then have "uint ?w = sint i + 1"
    using s1 by (simp add: uint_scast_nonneg)
  then have m: "uint (?w mod ?s) = (sint i + 1) mod uint ?s"
    by (simp add: uint_mod)
  have eq: "sint ?i' = uint (?w mod ?s)" and lo: "0 \<le> sint ?i'"
    using nz le by (rule sint_ucast_mod)+
  have "nat (sint ?i') = nat ((sint i + 1) mod uint ?s)"
    by (simp only: eq m)
  also have "\<dots> = nat (sint i + 1) mod nat (uint ?s)"
    using assms(2) by (simp add: nat_mod_distrib)
  also have "nat (sint i + 1) = nat (sint i) + 1"
    using assms(2) by (simp add: nat_add_distrib)
  finally have "nat (sint ?i') = (nat (sint i) + 1) mod unat ?s"
    by simp
  with u lo show ?thesis
    by blast
qed

lemma same_shape_wf: "same_shape t self \<Longrightarrow> wf_table self \<Longrightarrow> wf_table t"
  by (simp add: same_shape_def wf_table_def)

lemma same_shape_trans: "same_shape t u \<Longrightarrow> same_shape u self \<Longrightarrow> same_shape t self"
  by (simp add: same_shape_def same_fields_def)

lemma default_functions_ok:
  assumes "hashcode self = addr_hash" and "equals self = ref_eq"
  shows "hash_respects self" and "equals_sym self" and "equals_trans self"
  using assms
  by (simp_all add: hash_respects_def equals_sym_def equals_trans_def ref_eq_def)

section \<open>The chained table: add, resize and get\<close>

lemma add_entry_eq:
  assumes "wf_table self"
  shows "add_entry self entry =
           Some (self\<lparr> backing := (backing self)[bucket_index self (key entry) :=
                    entry # backing self ! bucket_index self (key entry)] \<rparr>)"
proof -
  obtain i where "compress self (hashcode self (key entry)) = Some i"
    and "nat (sint i) = bucket_index self (key entry)"
    and "arr_read (backing self) i = Some (backing self ! bucket_index self (key entry))"
    using assms by (rule wf_read_bucket)
  then show ?thesis
    by (simp add: add_entry_def)
qed

lemma hashmap_get_eq:
  assumes "wf_table self"
  shows "hashmap_get self k =
           Some (case chain_find (equals self) k (backing self ! bucket_index self k) of
                   Some cur \<Rightarrow> value cur | None \<Rightarrow> NULL)"
proof -
  obtain i where "compress self (hashcode self k) = Some i"
    and "nat (sint i) = bucket_index self k"
    and "arr_read (backing self) i = Some (backing self ! bucket_index self k)"
    using assms by (rule wf_read_bucket)
  then show ?thesis
    by (simp add: hashmap_get_def)
qed

lemma set_concat_update_cons:
  assumes "b < length xs"
  shows "set (concat (xs[b := e # xs ! b])) = insert e (set (concat xs))"
proof -
  have id: "take b xs @ xs ! b # drop (Suc b) xs = xs"
    using assms by (simp add: id_take_nth_drop [symmetric])
  have upd: "xs[b := e # xs ! b] = take b xs @ (e # xs ! b) # drop (Suc b) xs"
    using assms by (simp add: upd_conv_take_nth_drop)
  have "set (concat (take b xs @ (e # xs ! b) # drop (Suc b) xs))
      = insert e (set (concat (take b xs @ xs ! b # drop (Suc b) xs)))"
    by auto
  then show ?thesis
    by (simp only: upd id)
qed

lemma add_entry_props:
  assumes "wf_table self" and "add_entry self entry = Some t"
  shows "wf_table t" and "size_hm t = size_hm self" and "same_fields t self"
    and "set (entries t) = insert entry (set (entries self))"
    and "placed self \<Longrightarrow> placed t"
proof -
  let ?b = "bucket_index self (key entry)"
  have t: "t = self\<lparr> backing := (backing self)[?b := entry # backing self ! ?b] \<rparr>"
    using assms add_entry_eq [of self entry] by simp
  have b: "?b < length (backing self)"
    using assms(1) by (rule wf_bucket_index_less)
  show "wf_table t"
    using assms(1) by (simp add: t wf_table_def)
  show "size_hm t = size_hm self"
    by (simp add: t)
  show "same_fields t self"
    by (simp add: t same_fields_def)
  show "set (entries t) = insert entry (set (entries self))"
    using b by (simp add: t entries_def set_concat_update_cons del: set_concat)
  show "placed t" if "placed self"
    unfolding placed_def
  proof (intro allI impI ballI)
    fix i e
    assume i: "i < length (backing t)" and e: "e \<in> set (backing t ! i)"
    have bi: "bucket_index t (key e) = bucket_index self (key e)"
      by (simp add: t bucket_index_def)
    have "bucket_index self (key e) = i"
    proof (cases "i = ?b")
      case True
      with e b have "e = entry \<or> e \<in> set (backing self ! i)"
        by (auto simp: t)
      then show ?thesis
      proof
        assume "e = entry"
        then show ?thesis
          using True by simp
      next
        assume "e \<in> set (backing self ! i)"
        then show ?thesis
          using that b True by (simp add: placed_def)
      qed
    next
      case False
      with e i have "e \<in> set (backing self ! i)" "i < length (backing self)"
        by (auto simp: t)
      then show ?thesis
        using that by (simp add: placed_def)
    qed
    then show "bucket_index t (key e) = i"
      by (simp only: bi)
  qed
qed

lemma rehash_props:
  assumes "wf_table self"
  shows "\<exists>t. rehash self es = Some t \<and> wf_table t \<and> size_hm t = size_hm self
           \<and> same_fields t self \<and> set (entries t) = set (entries self) \<union> set es
           \<and> (placed self \<longrightarrow> placed t)"
  using assms
proof (induction es arbitrary: self)
  case Nil
  then show ?case
    by (simp add: same_fields_def)
next
  case (Cons e es)
  obtain t1 where t1: "add_entry self e = Some t1"
    using add_entry_eq [OF Cons.prems] by blast
  note p = add_entry_props [OF Cons.prems t1]
  from Cons.IH [OF p(1)] obtain t where
    t: "rehash t1 es = Some t" "wf_table t" "size_hm t = size_hm t1" "same_fields t t1"
       "set (entries t) = set (entries t1) \<union> set es" "placed t1 \<longrightarrow> placed t"
    by blast
  have "rehash self (e # es) = Some t"
    using t1 t(1) by simp
  moreover have "same_fields t self"
    using t(4) p(3) by (simp add: same_fields_def)
  moreover have "set (entries t) = set (entries self) \<union> set (e # es)"
    using t(5) p(4) by auto
  moreover have "placed self \<longrightarrow> placed t"
    using t(6) p(5) by blast
  ultimately show ?case
    using t(2,3) p(2) by simp
qed

lemma rehash_buckets_props:
  assumes "wf_table self"
  shows "\<exists>t. rehash_buckets self bs = Some t \<and> wf_table t \<and> size_hm t = size_hm self
           \<and> same_fields t self \<and> set (entries t) = set (entries self) \<union> set (concat bs)
           \<and> (placed self \<longrightarrow> placed t)"
  using assms
proof (induction bs arbitrary: self)
  case Nil
  then show ?case
    by (simp add: same_fields_def)
next
  case (Cons b bs)
  from rehash_props [OF Cons.prems, of b] obtain t1 where
    t1: "rehash self b = Some t1" "wf_table t1" "size_hm t1 = size_hm self"
        "same_fields t1 self" "set (entries t1) = set (entries self) \<union> set b"
        "placed self \<longrightarrow> placed t1"
    by blast
  from Cons.IH [OF t1(2)] obtain t where
    t: "rehash_buckets t1 bs = Some t" "wf_table t" "size_hm t = size_hm t1" "same_fields t t1"
       "set (entries t) = set (entries t1) \<union> set (concat bs)" "placed t1 \<longrightarrow> placed t"
    by blast
  have "rehash_buckets self (b # bs) = Some t"
    using t1(1) t(1) by simp
  moreover have "same_fields t self"
    using t(4) t1(4) by (simp add: same_fields_def)
  moreover have "set (entries t) = set (entries self) \<union> set (concat (b # bs))"
    using t(5) t1(5) by auto
  moreover have "placed self \<longrightarrow> placed t"
    using t(6) t1(6) by blast
  ultimately show ?case
    using t(2,3) t1(3) by simp
qed

lemma resize_props:
  assumes "wf_table self" and "new_size \<noteq> 0" and "uint new_size < 2 ^ 31"
  shows "\<exists>t. resize True self new_size = Some (1, t) \<and> wf_table t \<and> size_hm t = new_size
           \<and> same_fields t self \<and> set (entries t) = set (entries self) \<and> placed t"
proof -
  let ?t0 = "self\<lparr> size_hm := new_size, backing := replicate (unat new_size) [] \<rparr>"
  have wf0: "wf_table ?t0"
    using assms(2,3) by (simp add: wf_table_def)
  have e0: "set (entries ?t0) = {}"
    by (simp add: entries_def)
  have p0: "placed ?t0"
    by (simp add: placed_def)
  have len: "length (backing self) = unat (size_hm self)"
    using assms(1) by (simp add: wf_table_def)
  from rehash_buckets_props [OF wf0, of "backing self"] obtain t where
    t: "rehash_buckets ?t0 (backing self) = Some t" "wf_table t" "size_hm t = size_hm ?t0"
       "same_fields t ?t0" "set (entries t) = set (entries ?t0) \<union> set (concat (backing self))"
       "placed ?t0 \<longrightarrow> placed t"
    by blast
  have "resize True self new_size = Some (1, t)"
    using t(1) len by (simp add: resize_def)
  moreover have "same_fields t self"
    using t(4) by (simp add: same_fields_def)
  moreover have "set (entries t) = set (entries self)"
    using t(5) e0 by (simp add: entries_def)
  ultimately show ?thesis
    using t(2,3,6) p0 by simp
qed

lemma chain_find_None_iff:
  "chain_find eq k es = None \<longleftrightarrow> (\<forall>e \<in> set es. eq (key e) k = 0)"
  by (induction es) auto

lemma chain_find_Some:
  "chain_find eq k es = Some e \<Longrightarrow> e \<in> set es \<and> eq (key e) k \<noteq> 0"
  by (induction es) (auto split: if_splits)

lemma bucket_subset_entries:
  assumes "i < length (backing self)"
  shows "set (backing self ! i) \<subseteq> set (entries self)"
proof
  fix e
  assume "e \<in> set (backing self ! i)"
  moreover have "backing self ! i \<in> set (backing self)"
    using assms by (rule nth_mem)
  ultimately show "e \<in> set (entries self)"
    unfolding entries_def set_concat by blast
qed

lemma entry_in_its_bucket:
  assumes "placed self" and "e \<in> set (entries self)"
  shows "bucket_index self (key e) < length (backing self)
         \<and> e \<in> set (backing self ! bucket_index self (key e))"
proof -
  from assms(2) obtain c where "c \<in> set (backing self)" and e: "e \<in> set c"
    by (auto simp: entries_def)
  then obtain i where i: "i < length (backing self)" and c: "c = backing self ! i"
    by (auto simp: in_set_conv_nth)
  with assms(1) e have "bucket_index self (key e) = i"
    by (simp add: placed_def)
  with i c e show ?thesis
    by simp
qed

lemma bucket_index_equal_keys:
  assumes "hash_respects self" and "equals self a b \<noteq> 0"
  shows "bucket_index self a = bucket_index self b"
  using assms by (simp add: hash_respects_def bucket_index_def)

lemma get_present:
  assumes "wf_table self" and "placed self" and "hash_respects self"
    and "e \<in> set (entries self)" and "equals self (key e) k \<noteq> 0"
  shows "\<exists>e' \<in> set (entries self). equals self (key e') k \<noteq> 0
           \<and> chain_find (equals self) k (backing self ! bucket_index self k) = Some e'
           \<and> hashmap_get self k = Some (value e')"
proof -
  let ?b = "bucket_index self k"
  have "bucket_index self (key e) = ?b"
    using assms(3,5) by (rule bucket_index_equal_keys)
  with entry_in_its_bucket [OF assms(2,4)]
  have b: "?b < length (backing self)" and e: "e \<in> set (backing self ! ?b)"
    by simp_all
  have "chain_find (equals self) k (backing self ! ?b) \<noteq> None"
    using e assms(5) by (auto simp: chain_find_None_iff)
  then obtain e' where f: "chain_find (equals self) k (backing self ! ?b) = Some e'"
    by blast
  then have "e' \<in> set (backing self ! ?b)" and m: "equals self (key e') k \<noteq> 0"
    by (auto dest: chain_find_Some)
  then have "e' \<in> set (entries self)"
    using bucket_subset_entries [OF b] by blast
  moreover have "hashmap_get self k = Some (value e')"
    using f by (simp add: hashmap_get_eq [OF assms(1)])
  ultimately show ?thesis
    using m f by blast
qed

lemma get_absent:
  assumes "wf_table self" and "\<not> present self k"
  shows "hashmap_get self k = Some NULL"
proof -
  let ?b = "bucket_index self k"
  have "?b < length (backing self)"
    using assms(1) by (rule wf_bucket_index_less)
  then have "set (backing self ! ?b) \<subseteq> set (entries self)"
    by (rule bucket_subset_entries)
  with assms(2) have "chain_find (equals self) k (backing self ! ?b) = None"
    by (auto simp: chain_find_None_iff present_def)
  then show ?thesis
    by (simp add: hashmap_get_eq [OF assms(1)])
qed

lemma unique_keys_elements:
  assumes "unique_keys self" and "e \<in> set (entries self)" and "e' \<in> set (entries self)"
    and "e \<noteq> e'"
  shows "equals self (key e) (key e') = 0"
proof -
  from assms(2,3) obtain i j where "i < length (entries self)" "entries self ! i = e"
    "j < length (entries self)" "entries self ! j = e'"
    by (auto simp: in_set_conv_nth)
  moreover from this assms(4) have "i \<noteq> j"
    by auto
  ultimately show ?thesis
    using assms(1) unfolding unique_keys_def by metis
qed

lemma one_entry_per_key:
  assumes "unique_keys self" and "equals_sym self" and "equals_trans self"
    and "e \<in> set (entries self)" and "equals self (key e) k \<noteq> 0"
    and "e' \<in> set (entries self)" and "equals self (key e') k \<noteq> 0"
  shows "e = e'"
proof (rule ccontr)
  assume "e \<noteq> e'"
  with assms(1,4,6) have z: "equals self (key e) (key e') = 0"
    by (rule unique_keys_elements)
  have "equals self k (key e') \<noteq> 0"
    using assms(2,7) unfolding equals_sym_def by blast
  with assms(3,5) have "equals self (key e) (key e') \<noteq> 0"
    unfolding equals_trans_def by blast
  with z show False
    by simp
qed

lemma get_same_entries:
  assumes wf: "wf_table self" "wf_table t" and pl: "placed self" "placed t"
    and fn: "hashcode t = hashcode self" "equals t = equals self"
    and en: "set (entries t) = set (entries self)"
    and hr: "hash_respects self"
    and un: "unique_keys self" "equals_sym self" "equals_trans self"
  shows "hashmap_get t k = hashmap_get self k"
proof (cases "present self k")
  case True
  then obtain e where e: "e \<in> set (entries self)" "equals self (key e) k \<noteq> 0"
    by (auto simp: present_def)
  from get_present [OF wf(1) pl(1) hr e] obtain e1 where
    e1: "e1 \<in> set (entries self)" "equals self (key e1) k \<noteq> 0"
        "hashmap_get self k = Some (value e1)"
    by blast
  have hrt: "hash_respects t"
    using hr fn by (simp add: hash_respects_def)
  have "e \<in> set (entries t)" "equals t (key e) k \<noteq> 0"
    using e en fn by simp_all
  from get_present [OF wf(2) pl(2) hrt this] obtain e2 where
    e2: "e2 \<in> set (entries t)" "equals t (key e2) k \<noteq> 0"
        "hashmap_get t k = Some (value e2)"
    by blast
  have "e2 \<in> set (entries self)" "equals self (key e2) k \<noteq> 0"
    using e2 en fn by simp_all
  with un e1(1,2) have "e1 = e2"
    by (rule one_entry_per_key)
  with e1(3) e2(3) show ?thesis
    by simp
next
  case False
  then have "\<not> present t k"
    using en fn by (simp add: present_def)
  with False wf show ?thesis
    by (simp add: get_absent)
qed

lemma present_refused:
  assumes "wf_table t" and "placed t" and "hash_respects t" and "present t k"
  obtains i e where "compress t (hashcode t k) = Some i"
    and "arr_read (backing t) i = Some (backing t ! bucket_index t k)"
    and "chain_find (equals t) k (backing t ! bucket_index t k) = Some e"
proof -
  from assms(4) obtain e where "e \<in> set (entries t)" "equals t (key e) k \<noteq> 0"
    by (auto simp: present_def)
  from get_present [OF assms(1-3) this] obtain e' where
    f: "chain_find (equals t) k (backing t ! bucket_index t k) = Some e'"
    by blast
  obtain i where "compress t (hashcode t k) = Some i"
    and "arr_read (backing t) i = Some (backing t ! bucket_index t k)"
    using assms(1) by (rule wf_read_bucket)
  then show thesis
    using f by (rule that)
qed

lemma add_no_resize:
  assumes "wf_table t1"
  shows "\<exists>r t2.
     (case compress t1 (hashcode t1 k) of
        None \<Rightarrow> None
      | Some index \<Rightarrow>
         (case arr_read (backing t1) index of
            None \<Rightarrow> None
          | Some head \<Rightarrow>
             (case chain_find (equals t1) k head of
                Some cur \<Rightarrow> Some (0, t1)
              | None \<Rightarrow>
                 if \<not> malloc_ok then Some (0, t1)
                 else
                  (case add_entry t1 \<lparr> key = k, value = v \<rparr> of
                     None \<Rightarrow> None
                   | Some self2 \<Rightarrow> Some (1, self2\<lparr> nentries := nentries self2 + 1 \<rparr>)))))
      = Some (r, t2) \<and> size_hm t2 = size_hm t1 \<and> wf_table t2"
proof -
  obtain i where i: "compress t1 (hashcode t1 k) = Some i"
    "arr_read (backing t1) i = Some (backing t1 ! bucket_index t1 k)"
    using assms by (rule wf_read_bucket)
  obtain t where t: "add_entry t1 \<lparr> key = k, value = v \<rparr> = Some t"
    using add_entry_eq [OF assms] by blast
  note p = add_entry_props [OF assms t]
  have "wf_table (t\<lparr> nentries := nentries t + 1 \<rparr>)"
    using p(1) by (simp add: wf_table_def)
  with i t p(2) assms show ?thesis
    by (simp split: option.split)
qed

lemma hashmap_add_capacity:
  assumes "wf_table self" and "uint (size_hm self) < 2 ^ 30"
  shows "\<exists>r t. hashmap_add calloc_ok malloc_ok self k v = Some (r, t)
           \<and> size_hm t = (if load_exceeded self \<and> calloc_ok then size_hm self * 2 else size_hm self)
           \<and> wf_table t \<and> (load_exceeded self \<and> \<not> calloc_ok \<longrightarrow> r = 0 \<and> t = self)"
proof (cases "load_exceeded self")
  case False
  with add_no_resize [OF assms(1), where k = k and malloc_ok = malloc_ok and v = v] show ?thesis
    by (simp add: hashmap_add_def)
next
  case True
  show ?thesis
  proof (cases calloc_ok)
    case False
    with True assms(1) show ?thesis
      by (simp add: hashmap_add_def resize_def)
  next
    case c: True
    have nz: "size_hm self \<noteq> 0"
      using assms(1) by (simp add: wf_table_def)
    note d = double_size [OF nz assms(2)]
    from resize_props [OF assms(1) d(1,2)] obtain t1 where
      t1: "resize True self (size_hm self * 2) = Some (1, t1)" "wf_table t1"
         "size_hm t1 = size_hm self * 2"
      by blast
    with add_no_resize [OF t1(2), where k = k and malloc_ok = malloc_ok and v = v] True c show ?thesis
      by (simp add: hashmap_add_def)
  qed
qed

lemma get_null_value:
  assumes "wf_table self" and "placed self" and "hash_respects self"
    and "present self k"
    and "\<forall>e \<in> set (entries self). equals self (key e) k \<noteq> 0 \<longrightarrow> value e = NULL"
  shows "hashmap_get self k = Some NULL \<and> hashmap_contains self k = Some 0"
proof -
  from assms(4) obtain e where "e \<in> set (entries self)" "equals self (key e) k \<noteq> 0"
    by (auto simp: present_def)
  from get_present [OF assms(1-3) this] obtain e' where
    "e' \<in> set (entries self)" "equals self (key e') k \<noteq> 0" "hashmap_get self k = Some (value e')"
    by blast
  with assms(5) have "hashmap_get self k = Some NULL"
    by auto
  then show ?thesis
    by (simp add: hashmap_contains_def)
qed

section \<open>The open-addressing table: the probes return\<close>

lemma probe_index_less: "wf_table self \<Longrightarrow> probe_index self k j < length (backing self)"
  using wf_size_pos [of self] by (simp add: probe_index_def wf_table_def)

lemma probe_index_0: "wf_table self \<Longrightarrow> probe_index self k 0 = bucket_index self k"
  using wf_bucket_index_less [of self k] by (simp add: probe_index_def wf_table_def)

lemma probe_index_Suc:
  "(probe_index self k j + 1) mod unat (size_hm self) = probe_index self k (Suc j)"
  by (simp add: probe_index_def mod_Suc_eq)

lemma probe_index_cycle:
  assumes "wf_table self" and "probe_index self k (Suc j) \<noteq> probe_index self k 0"
    and "j < unat (size_hm self)"
  shows "Suc j < unat (size_hm self)"
proof (rule ccontr)
  assume "\<not> Suc j < unat (size_hm self)"
  with assms(3) have "Suc j = unat (size_hm self)"
    by simp
  then have "probe_index self k (Suc j) = probe_index self k 0"
    by (simp add: probe_index_def)
  with assms(2) show False
    by simp
qed

lemma probe_step:
  assumes "wf_table self" and "0 \<le> sint i" and "nat (sint i) = probe_index self k j"
  obtains i' where "update_index self i = Some i'" and "0 \<le> sint i'"
    and "nat (sint i') = probe_index self k (Suc j)"
    and "arr_read (backing self) i' = Some (backing self ! probe_index self k (Suc j))"
proof -
  have "nat (sint i) < unat (size_hm self)"
    using probe_index_less [OF assms(1), of k j] assms(1,3) by (simp add: wf_table_def)
  from update_index_eq [OF assms(1,2) this] obtain i' where
    i': "update_index self i = Some i'" "0 \<le> sint i'"
        "nat (sint i') = (nat (sint i) + 1) mod unat (size_hm self)"
    by blast
  have n: "nat (sint i') = probe_index self k (Suc j)"
    using i'(3) assms(3) by (simp only: probe_index_Suc)
  have "arr_read (backing self) i' = Some (backing self ! probe_index self k (Suc j))"
    using i'(2) n probe_index_less [OF assms(1), of k "Suc j"]
    by (simp add: arr_read_def in_bounds_def)
  with i'(1,2) n show thesis
    by (rule that)
qed

lemma add_entry_probe_total:
  assumes "wf_table self"
    and "0 \<le> sint flag" and "nat (sint flag) = probe_index self k 0"
    and "0 \<le> sint i" and "nat (sint i) = probe_index self k j" and "j < unat (size_hm self)"
  shows "\<exists>r t. add_entry_probe self entry flag i cur = Some (r, t) \<and> same_shape t self"
  using assms(4-6)
proof (induction "unat (size_hm self) - j" arbitrary: j i cur)
  case 0
  then show ?case
    by simp
next
  case (Suc n)
  show ?case
  proof (cases "state cur = ACTIVE")
    case False
    have "in_bounds (backing self) i"
      using Suc.prems(1,2) probe_index_less [OF assms(1), of k j] by (simp add: in_bounds_def)
    with False show ?thesis
      by (subst add_entry_probe.simps)
        (simp add: arr_write_def same_shape_def same_fields_def)
  next
    case True
    show ?thesis
    proof (cases "equals self (key cur) (key entry) \<noteq> 0")
      case e: True
      with True show ?thesis
        by (subst add_entry_probe.simps) (simp add: same_shape_def same_fields_def)
    next
      case e: False
      obtain i' where i': "update_index self i = Some i'" "0 \<le> sint i'"
        "nat (sint i') = probe_index self k (Suc j)"
        "arr_read (backing self) i' = Some (backing self ! probe_index self k (Suc j))"
        using assms(1) Suc.prems(1,2) by (rule probe_step)
      show ?thesis
      proof (cases "i' = flag")
        case f: True
        with True e i' show ?thesis
          by (subst add_entry_probe.simps) (simp add: same_shape_def same_fields_def)
      next
        case f: False
        then have "probe_index self k (Suc j) \<noteq> probe_index self k 0"
          using i'(2,3) assms(2,3) by (simp add: index_eq_iff)
        with assms(1) have lt: "Suc j < unat (size_hm self)"
          using Suc.prems(3) by (rule probe_index_cycle)
        have "n = unat (size_hm self) - Suc j"
          using Suc.hyps(2) by simp
        from Suc.hyps(1) [OF this i'(2,3) lt]
        obtain r t where
          "add_entry_probe self entry flag i' (backing self ! probe_index self k (Suc j)) = Some (r, t)"
          "same_shape t self"
          by blast
        with True e i' f show ?thesis
          by (subst add_entry_probe.simps) simp
      qed
    qed
  qed
qed

lemma add_entry_oa_total:
  assumes "wf_table self"
  shows "\<exists>r t. add_entry_oa self entry = Some (r, t) \<and> same_shape t self"
proof -
  let ?k = "key entry"
  from wf_compress [OF assms, of ?k] obtain i where
    i: "compress self (hashcode self ?k) = Some i" "0 \<le> sint i"
       "nat (sint i) = bucket_index self ?k" "bucket_index self ?k < length (backing self)"
    by blast
  have r: "arr_read (backing self) i = Some (backing self ! bucket_index self ?k)"
    using i by (simp add: arr_read_def in_bounds_def)
  have p: "nat (sint i) = probe_index self ?k 0"
    using i(3) assms by (simp add: probe_index_0)
  from add_entry_probe_total [OF assms i(2) p i(2) p wf_size_pos [OF assms]]
  obtain r' t where
    "add_entry_probe self entry i i (backing self ! bucket_index self ?k) = Some (r', t)"
    "same_shape t self"
    by blast
  with i(1) r show ?thesis
    by (simp add: add_entry_oa_def)
qed

lemma rehash_oa_total:
  assumes "wf_table self"
  shows "\<exists>t. rehash_oa self es = Some t \<and> same_shape t self"
  using assms
proof (induction es arbitrary: self)
  case Nil
  then show ?case
    by (simp add: same_shape_def same_fields_def)
next
  case (Cons e es)
  show ?case
  proof (cases "state e = ACTIVE")
    case True
    from add_entry_oa_total [OF Cons.prems, of e] obtain r t1 where
      t1: "add_entry_oa self e = Some (r, t1)" "same_shape t1 self"
      by blast
    then have "wf_table t1"
      using Cons.prems by (simp add: same_shape_wf)
    from Cons.IH [OF this] obtain t where "rehash_oa t1 es = Some t" "same_shape t t1"
      by blast
    with t1 True show ?thesis
      by (auto intro: same_shape_trans)
  next
    case False
    with Cons.IH [OF Cons.prems] show ?thesis
      by simp
  qed
qed

lemma resize_oa_total:
  assumes "wf_table self" and "new_size \<noteq> 0" and "uint new_size < 2 ^ 31"
  shows "\<exists>t. resize_oa True self new_size = Some (1, t) \<and> wf_table t \<and> size_hm t = new_size
           \<and> same_fields t self"
proof -
  let ?t0 = "self\<lparr> size_hm := new_size, backing := replicate (unat new_size) zero_slot \<rparr>"
  have wf0: "wf_table ?t0"
    using assms(2,3) by (simp add: wf_table_def)
  have len: "length (backing self) = unat (size_hm self)"
    using assms(1) by (simp add: wf_table_def)
  from rehash_oa_total [OF wf0, of "backing self"] obtain t where
    t: "rehash_oa ?t0 (backing self) = Some t" "same_shape t ?t0"
    by blast
  have "resize_oa True self new_size = Some (1, t)"
    using t(1) len by (simp add: resize_oa_def)
  moreover have "wf_table t"
    using t(2) wf0 by (rule same_shape_wf)
  moreover have "size_hm t = new_size" "same_fields t self"
    using t(2) by (simp_all add: same_shape_def same_fields_def)
  ultimately show ?thesis
    by simp
qed

lemma add_oa_no_resize:
  assumes "wf_table t1"
  shows "\<exists>r t2.
     (case add_entry_oa t1 \<lparr> key = k, value = v, state = ACTIVE \<rparr> of
        None \<Rightarrow> None
      | Some (added, self2) \<Rightarrow>
         if added = 0 then Some (0, self2)
         else Some (1, self2\<lparr> nentries := nentries self2 + 1 \<rparr>))
      = Some (r, t2) \<and> size_hm t2 = size_hm t1 \<and> wf_table t2"
proof -
  from add_entry_oa_total [OF assms, of "\<lparr> key = k, value = v, state = ACTIVE \<rparr>"]
  obtain r t where t: "add_entry_oa t1 \<lparr> key = k, value = v, state = ACTIVE \<rparr> = Some (r, t)"
    "same_shape t t1"
    by blast
  have "wf_table t"
    using t(2) assms by (rule same_shape_wf)
  moreover have "size_hm t = size_hm t1"
    using t(2) by (simp add: same_shape_def)
  moreover have "wf_table (t\<lparr> nentries := nentries t + 1 \<rparr>)"
    using \<open>wf_table t\<close> by (simp add: wf_table_def)
  ultimately show ?thesis
    using t(1) by simp
qed

lemma hashmap_add_oa_capacity:
  assumes "wf_table self" and "uint (size_hm self) < 2 ^ 30"
  shows "\<exists>r t. hashmap_add_oa calloc_ok self k v = Some (r, t)
           \<and> size_hm t = (if load_exceeded self \<and> calloc_ok then size_hm self * 2 else size_hm self)
           \<and> wf_table t \<and> (load_exceeded self \<and> \<not> calloc_ok \<longrightarrow> r = 0 \<and> t = self)"
proof (cases "load_exceeded self")
  case False
  with add_oa_no_resize [OF assms(1), where k = k and v = v] show ?thesis
    by (simp add: hashmap_add_oa_def)
next
  case True
  show ?thesis
  proof (cases calloc_ok)
    case False
    with True assms(1) show ?thesis
      by (simp add: hashmap_add_oa_def resize_oa_def)
  next
    case c: True
    have nz: "size_hm self \<noteq> 0"
      using assms(1) by (simp add: wf_table_def)
    note d = double_size [OF nz assms(2)]
    from resize_oa_total [OF assms(1) d(1,2)] obtain t1 where
      t1: "resize_oa True self (size_hm self * 2) = Some (1, t1)" "wf_table t1"
         "size_hm t1 = size_hm self * 2"
      by blast
    with add_oa_no_resize [OF t1(2), where k = k and v = v] True c show ?thesis
      by (simp add: hashmap_add_oa_def)
  qed
qed

lemma find_entry_probe_found:
  assumes "wf_table self" and "found_at self k j"
    and "0 \<le> sint flag" and "nat (sint flag) = probe_index self k 0"
    and "0 \<le> sint i" and "nat (sint i) = probe_index self k m" and "m \<le> j"
  shows "\<exists>r. find_entry_probe self k flag i (backing self ! probe_index self k m) = Some (Some r)
           \<and> 0 \<le> sint r \<and> nat (sint r) = probe_index self k j"
  using assms(5-7)
proof (induction "j - m" arbitrary: m i)
  case 0
  then have "m = j"
    by simp
  with assms(2) 0 show ?case
    by (subst find_entry_probe.simps) (simp add: found_at_def)
next
  case (Suc n)
  then have lt: "m < j"
    by simp
  with assms(2) have cur: "state (backing self ! probe_index self k m) \<noteq> EMPTY"
    "state (backing self ! probe_index self k m) = ACTIVE
       \<longrightarrow> equals self (key (backing self ! probe_index self k m)) k = 0"
    by (simp_all add: found_at_def)
  have jlt: "j < unat (size_hm self)"
    using assms(2) by (simp add: found_at_def)
  obtain i' where i': "update_index self i = Some i'" "0 \<le> sint i'"
    "nat (sint i') = probe_index self k (Suc m)"
    "arr_read (backing self) i' = Some (backing self ! probe_index self k (Suc m))"
    using assms(1) Suc.prems(1,2) by (rule probe_step)
  have "Suc m < unat (size_hm self)"
    using lt jlt by simp
  moreover have "bucket_index self k < unat (size_hm self)"
    using wf_bucket_index_less [OF assms(1), of k] assms(1) by (simp add: wf_table_def)
  ultimately have "(bucket_index self k + Suc m) mod unat (size_hm self) \<noteq> bucket_index self k"
    by (intro mod_shift_neq) simp_all
  then have "probe_index self k (Suc m) \<noteq> probe_index self k 0"
    using probe_index_0 [OF assms(1), of k] by (simp add: probe_index_def)
  then have f: "i' \<noteq> flag"
    using i'(2,3) assms(3,4) by (simp add: index_eq_iff)
  have "n = j - Suc m" "Suc m \<le> j"
    using Suc.hyps(2) lt by simp_all
  from Suc.hyps(1) [OF this(1) i'(2,3) this(2)] obtain r where
    "find_entry_probe self k flag i' (backing self ! probe_index self k (Suc m)) = Some (Some r)"
    "0 \<le> sint r" "nat (sint r) = probe_index self k j"
    by blast
  with cur i' f show ?case
    by (subst find_entry_probe.simps) auto
qed

lemma find_entry_found:
  assumes "wf_table self" and "found_at self k j"
  shows "\<exists>r. find_entry self k = Some (Some r)
           \<and> arr_read (backing self) r = Some (backing self ! probe_index self k j)"
proof -
  from wf_compress [OF assms(1), of k] obtain i where
    i: "compress self (hashcode self k) = Some i" "0 \<le> sint i"
       "nat (sint i) = bucket_index self k" "bucket_index self k < length (backing self)"
    by blast
  have p: "nat (sint i) = probe_index self k 0"
    using i(3) assms(1) by (simp add: probe_index_0)
  have rd: "arr_read (backing self) i = Some (backing self ! probe_index self k 0)"
    using i(2,4) p assms(1) by (simp add: arr_read_def in_bounds_def probe_index_0)
  from find_entry_probe_found [OF assms i(2) p i(2) p] obtain r where
    r: "find_entry_probe self k i i (backing self ! probe_index self k 0) = Some (Some r)"
       "0 \<le> sint r" "nat (sint r) = probe_index self k j"
    by blast
  have "find_entry self k = Some (Some r)"
    using i(1) rd r(1) by (simp add: find_entry_def)
  moreover have "arr_read (backing self) r = Some (backing self ! probe_index self k j)"
    using r(2,3) probe_index_less [OF assms(1), of k j] by (simp add: arr_read_def in_bounds_def)
  ultimately show ?thesis
    by blast
qed

lemma get_null_value_oa:
  assumes "wf_table self" and "found_at self k j"
    and "value (backing self ! probe_index self k j) = NULL"
  shows "hashmap_get_oa self k = Some NULL \<and> hashmap_contains_oa self k = Some 0"
proof -
  from find_entry_found [OF assms(1,2)] obtain r where
    "find_entry self k = Some (Some r)"
    "arr_read (backing self) r = Some (backing self ! probe_index self k j)"
    by blast
  with assms(3) have "hashmap_get_oa self k = Some NULL"
    by (simp add: hashmap_get_oa_def)
  then show ?thesis
    by (simp add: hashmap_contains_oa_def)
qed

section \<open>The chained table keeps its invariant\<close>

lemma unat_less_if_uint_less:
  fixes w :: "'a::len word"
  assumes "uint w < 2 ^ n"
  shows "unat w < 2 ^ n"
proof -
  have "int (unat w) < int (2 ^ n)"
    using assms by simp
  then show ?thesis
    by (rule of_nat_less_imp_less)
qed

lemma unique_keys_sorted_wrt:
  "unique_keys self \<longleftrightarrow> sorted_wrt (unequal_keys (equals self)) (entries self)"
proof
  assume u: "unique_keys self"
  show "sorted_wrt (unequal_keys (equals self)) (entries self)"
    unfolding sorted_wrt_iff_nth_less unequal_keys_def
  proof (intro allI impI)
    fix i j
    assume "i < j" "j < length (entries self)"
    then have "i < length (entries self)" "j < length (entries self)" "i \<noteq> j" "j \<noteq> i"
      by simp_all
    with u show "equals self (key (entries self ! i)) (key (entries self ! j)) = 0
        \<and> equals self (key (entries self ! j)) (key (entries self ! i)) = 0"
      unfolding unique_keys_def by blast
  qed
next
  assume s: "sorted_wrt (unequal_keys (equals self)) (entries self)"
  show "unique_keys self"
    unfolding unique_keys_def
  proof (intro allI impI)
    fix i j
    assume ij: "i < length (entries self)" "j < length (entries self)" "i \<noteq> j"
    then consider "i < j" | "j < i"
      by linarith
    then show "equals self (key (entries self ! i)) (key (entries self ! j)) = 0"
    proof cases
      case 1
      with s ij(2) have "unequal_keys (equals self) (entries self ! i) (entries self ! j)"
        by (simp add: sorted_wrt_iff_nth_less)
      then show ?thesis
        by (simp add: unequal_keys_def)
    next
      case 2
      with s ij(1) have "unequal_keys (equals self) (entries self ! j) (entries self ! i)"
        by (simp add: sorted_wrt_iff_nth_less)
      then show ?thesis
        by (simp add: unequal_keys_def)
    qed
  qed
qed

lemma unequal_keys_commute: "unequal_keys eq a b \<longleftrightarrow> unequal_keys eq b a"
  by (auto simp: unequal_keys_def)

lemma sorted_wrt_insert_mid:
  "sorted_wrt (unequal_keys eq) (xs @ e # ys)
     \<longleftrightarrow> sorted_wrt (unequal_keys eq) (xs @ ys) \<and> (\<forall>x \<in> set xs \<union> set ys. unequal_keys eq e x)"
  using unequal_keys_commute [of eq] by (auto simp: sorted_wrt_append)

lemma concat_update_cons:
  assumes "b < length xs"
  shows "concat (xs[b := e # xs ! b])
           = concat (take b xs) @ e # (xs ! b @ concat (drop (Suc b) xs))"
    and "concat xs = concat (take b xs) @ (xs ! b @ concat (drop (Suc b) xs))"
proof -
  have id: "take b xs @ xs ! b # drop (Suc b) xs = xs"
    using assms by (simp add: id_take_nth_drop [symmetric])
  have upd: "xs[b := e # xs ! b] = take b xs @ (e # xs ! b) # drop (Suc b) xs"
    using assms by (simp add: upd_conv_take_nth_drop)
  show "concat (xs[b := e # xs ! b])
           = concat (take b xs) @ e # (xs ! b @ concat (drop (Suc b) xs))"
    by (simp only: upd) simp
  have "concat (take b xs @ xs ! b # drop (Suc b) xs)
          = concat (take b xs) @ (xs ! b @ concat (drop (Suc b) xs))"
    by simp
  then show "concat xs = concat (take b xs) @ (xs ! b @ concat (drop (Suc b) xs))"
    by (simp only: id)
qed

lemma add_entry_entries:
  assumes "wf_table self" and "add_entry self entry = Some t"
  obtains A B where "entries self = A @ B" and "entries t = A @ entry # B"
proof -
  let ?b = "bucket_index self (key entry)"
  have t: "t = self\<lparr> backing := (backing self)[?b := entry # backing self ! ?b] \<rparr>"
    using assms add_entry_eq [of self entry] by simp
  have b: "?b < length (backing self)"
    using assms(1) by (rule wf_bucket_index_less)
  note c = concat_update_cons(1) [OF b, where e = entry] concat_update_cons(2) [OF b]
  show thesis
  proof (rule that)
    show "entries self = concat (take ?b (backing self))
                           @ (backing self ! ?b @ concat (drop (Suc ?b) (backing self)))"
      unfolding entries_def by (rule c(2))
    show "entries t = concat (take ?b (backing self))
                        @ entry # (backing self ! ?b @ concat (drop (Suc ?b) (backing self)))"
      unfolding entries_def t using c(1) by simp
  qed
qed

lemma rehash_entries:
  assumes "wf_table self" and "rehash self es = Some t"
    and "sorted_wrt (unequal_keys eq) (entries self @ es @ rest)"
  shows "sorted_wrt (unequal_keys eq) (entries t @ rest)
         \<and> length (entries t) = length (entries self) + length es"
  using assms
proof (induction es arbitrary: self)
  case Nil
  then show ?case
    by simp
next
  case (Cons e es)
  from Cons.prems(1) obtain t1 where t1: "add_entry self e = Some t1"
    using add_entry_eq by blast
  with Cons.prems(2) have r: "rehash t1 es = Some t"
    by simp
  have wf1: "wf_table t1"
    using Cons.prems(1) t1 by (rule add_entry_props(1))
  obtain A B where ab: "entries self = A @ B" "entries t1 = A @ e # B"
    using Cons.prems(1) t1 by (rule add_entry_entries)
  have "sorted_wrt (unequal_keys eq) ((A @ B) @ e # (es @ rest))"
    using Cons.prems(3) ab(1) by simp
  then have "sorted_wrt (unequal_keys eq) (A @ e # (B @ es @ rest))"
    unfolding sorted_wrt_insert_mid by auto
  then have s1: "sorted_wrt (unequal_keys eq) (entries t1 @ es @ rest)"
    using ab(2) by simp
  from Cons.IH [OF wf1 r s1] ab show ?case
    by simp
qed

lemma rehash_buckets_entries:
  assumes "wf_table self" and "rehash_buckets self bs = Some t"
    and "sorted_wrt (unequal_keys eq) (entries self @ concat bs)"
  shows "sorted_wrt (unequal_keys eq) (entries t)
         \<and> length (entries t) = length (entries self) + length (concat bs)"
  using assms
proof (induction bs arbitrary: self)
  case Nil
  then show ?case
    by simp
next
  case (Cons b bs)
  from rehash_props [OF Cons.prems(1), of b] obtain t1 where
    t1: "rehash self b = Some t1" "wf_table t1"
    by blast
  with Cons.prems(2) have r: "rehash_buckets t1 bs = Some t"
    by simp
  have "sorted_wrt (unequal_keys eq) (entries self @ b @ concat bs)"
    using Cons.prems(3) by simp
  from rehash_entries [OF Cons.prems(1) t1(1) this]
  have e1: "sorted_wrt (unequal_keys eq) (entries t1 @ concat bs)"
    "length (entries t1) = length (entries self) + length b"
    by simp_all
  from Cons.IH [OF t1(2) r e1(1)] e1(2) show ?case
    by simp
qed

lemma resize_entries:
  assumes "wf_table self" and "resize True self new_size = Some (r, t)"
    and "new_size \<noteq> 0" and "uint new_size < 2 ^ 31"
    and "unique_keys self"
  shows "unique_keys t \<and> length (entries t) = length (entries self)"
proof -
  let ?t0 = "self\<lparr> size_hm := new_size, backing := replicate (unat new_size) [] \<rparr>"
  have wf0: "wf_table ?t0"
    using assms(3,4) by (simp add: wf_table_def)
  have e0: "entries ?t0 = []"
    by (simp add: entries_def)
  have len: "length (backing self) = unat (size_hm self)"
    using assms(1) by (simp add: wf_table_def)
  from assms(2) len have rb: "rehash_buckets ?t0 (backing self) = Some t"
    by (simp add: resize_def split: option.splits)
  from rehash_buckets_props [OF wf0, of "backing self"] rb have "same_fields t ?t0"
    by simp
  then have eq: "equals t = equals self"
    by (simp add: same_fields_def)
  have "sorted_wrt (unequal_keys (equals self)) (entries ?t0 @ concat (backing self))"
    using assms(5) by (simp add: e0 unique_keys_sorted_wrt entries_def)
  from rehash_buckets_entries [OF wf0 rb this]
  show ?thesis
    by (simp add: unique_keys_sorted_wrt eq e0 entries_def)
qed

lemma new_key_unequal:
  assumes "wf_table self" and "placed self" and "hash_respects self" and "equals_sym self"
    and "chain_find (equals self) k (backing self ! bucket_index self k) = None"
    and "x \<in> set (entries self)"
  shows "unequal_keys (equals self) \<lparr> key = k, value = v \<rparr> x"
proof -
  have x0: "equals self (key x) k = 0"
  proof (rule ccontr)
    assume m: "equals self (key x) k \<noteq> 0"
    from get_present [OF assms(1-3,6) m] assms(5) show False
      by simp
  qed
  have "equals self k (key x) = 0"
  proof (rule ccontr)
    assume "equals self k (key x) \<noteq> 0"
    with assms(4) have "equals self (key x) k \<noteq> 0"
      unfolding equals_sym_def by blast
    with x0 show False
      by simp
  qed
  with x0 show ?thesis
    by (simp add: unequal_keys_def)
qed

lemma unat_succ_small:
  fixes w :: size_t
  assumes "unat w < 2 ^ 32"
  shows "unat (w + 1) = Suc (unat w)"
proof -
  have "unat w + unat (1 :: size_t) < 2 ^ LENGTH(64)"
    using assms by simp
  then have "unat (w + 1) = unat w + unat (1 :: size_t)"
    by (simp only: unat_add_lem [THEN iffD1])
  then show ?thesis
    by simp
qed

lemma add_no_resize_invariant:
  assumes "wf_table t1" and "placed t1" and "unique_keys t1"
    and "hash_respects t1" and "equals_sym t1"
    and "unat (nentries t1) = length (entries t1)"
    and "3 * Suc (length (entries t1)) < 2 * unat (size_hm t1) + 3"
    and "(case compress t1 (hashcode t1 k) of
        None \<Rightarrow> None
      | Some index \<Rightarrow>
         (case arr_read (backing t1) index of
            None \<Rightarrow> None
          | Some head \<Rightarrow>
             (case chain_find (equals t1) k head of
                Some cur \<Rightarrow> Some (0, t1)
              | None \<Rightarrow>
                 if \<not> malloc_ok then Some (0, t1)
                 else
                  (case add_entry t1 \<lparr> key = k, value = v \<rparr> of
                     None \<Rightarrow> None
                   | Some self2 \<Rightarrow> Some (1, self2\<lparr> nentries := nentries self2 + 1 \<rparr>)))))
      = Some (r, t2)"
  shows "chained_invariant t2 \<and> same_fields (t2\<lparr> nentries := nentries t1 \<rparr>) t1
         \<and> size_hm t2 = size_hm t1
         \<and> (r = 0 \<and> t2 = t1 \<or> r = 1 \<and> \<not> present t1 k
              \<and> length (entries t2) = Suc (length (entries t1)))"
proof -
  let ?b = "bucket_index t1 k"
  obtain i where i: "compress t1 (hashcode t1 k) = Some i"
    "arr_read (backing t1) i = Some (backing t1 ! ?b)"
    using assms(1) by (rule wf_read_bucket)
  have inv1: "chained_invariant t1"
    using assms(1-3,6,7) by (simp add: chained_invariant_def counted_def)
  show ?thesis
  proof (cases "chain_find (equals t1) k (backing t1 ! ?b) = None \<and> malloc_ok")
    case False
    with assms(8) i have "r = 0" "t2 = t1"
      by (auto split: option.splits if_splits)
    with inv1 show ?thesis
      by (simp add: same_fields_def)
  next
    case True
    then have none: "chain_find (equals t1) k (backing t1 ! ?b) = None" and "malloc_ok"
      by simp_all
    let ?e = "\<lparr> key = k, value = v \<rparr>"
    obtain t where t: "add_entry t1 ?e = Some t"
      using add_entry_eq [OF assms(1)] by blast
    with assms(8) i True have r: "r = 1" and t2: "t2 = t\<lparr> nentries := nentries t + 1 \<rparr>"
      by simp_all
    note p = add_entry_props [OF assms(1) t]
    obtain A B where ab: "entries t1 = A @ B" "entries t = A @ ?e # B"
      using assms(1) t by (rule add_entry_entries)
    have e2: "entries t2 = entries t"
      by (simp add: t2 entries_def)
    have f2: "equals t2 = equals t1" "hashcode t2 = hashcode t1" "size_hm t2 = size_hm t1"
      "nentries t2 = nentries t1 + 1"
      using p(2,3) by (simp_all add: t2 same_fields_def)
    have "wf_table t2"
      using p(1) by (simp add: t2 wf_table_def)
    moreover have "placed t2"
      using p(5) [OF assms(2)] by (simp add: t2 placed_def bucket_index_def)
    moreover have "unique_keys t2"
    proof -
      have "\<forall>x \<in> set A \<union> set B. unequal_keys (equals t1) ?e x"
        using new_key_unequal [OF assms(1,2,4,5) none] ab(1) by simp
      moreover have "sorted_wrt (unequal_keys (equals t1)) (A @ B)"
        using assms(3) ab(1) by (simp add: unique_keys_sorted_wrt)
      ultimately have "sorted_wrt (unequal_keys (equals t1)) (A @ ?e # B)"
        unfolding sorted_wrt_insert_mid by blast
      then show ?thesis
        by (simp add: unique_keys_sorted_wrt e2 ab(2) f2(1))
    qed
    moreover have len: "length (entries t2) = Suc (length (entries t1))"
      by (simp add: e2 ab)
    moreover have "counted t2"
    proof -
      have "uint (size_hm t1) < 2 ^ 31"
        using assms(1) by (simp add: wf_table_def)
      then have "unat (size_hm t1) < 2 ^ 31"
        by (rule unat_less_if_uint_less)
      with assms(7) have "length (entries t1) < 2 ^ 32"
        by simp
      then have "unat (nentries t1 + 1) = Suc (unat (nentries t1))"
        using assms(6) by (intro unat_succ_small) simp
      with assms(6,7) len f2(3,4) show ?thesis
        by (simp add: counted_def)
    qed
    moreover have "\<not> present t1 k"
    proof
      assume "present t1 k"
      then obtain e where "e \<in> set (entries t1)" "equals t1 (key e) k \<noteq> 0"
        by (auto simp: present_def)
      from get_present [OF assms(1,2,4) this] none show False
        by simp
    qed
    moreover have "same_fields (t2\<lparr> nentries := nentries t1 \<rparr>) t1"
      using p(3) by (simp add: t2 same_fields_def)
    ultimately show ?thesis
      using r f2(3) by (simp add: chained_invariant_def)
  qed
qed

lemma hashmap_add_invariant:
  assumes "chained_invariant self" and "uint (size_hm self) < 2 ^ 30"
    and "hash_respects self" and "equals_sym self"
    and "hashmap_add calloc_ok malloc_ok self k v = Some (r, t)"
  shows "chained_invariant t \<and> hashcode t = hashcode self \<and> equals t = equals self
         \<and> (r = 0 \<and> length (entries t) = length (entries self)
              \<or> r = 1 \<and> \<not> present self k \<and> length (entries t) = Suc (length (entries self)))"
proof -
  from assms(1) have wf: "wf_table self" and pl: "placed self" and un: "unique_keys self"
    and cn: "unat (nentries self) = length (entries self)"
    and ld: "3 * length (entries self) < 2 * unat (size_hm self) + 3"
    by (simp_all add: chained_invariant_def counted_def)
  show ?thesis
  proof (cases "load_exceeded self")
    case False
    then have "3 * Suc (length (entries self)) < 2 * unat (size_hm self) + 3"
      using cn by (simp add: load_exceeded_def)
    from add_no_resize_invariant [OF wf pl un assms(3,4) cn this, where k = k and malloc_ok = malloc_ok and v = v and r = r and ?t2.0 = t]
      assms(5) False
    show ?thesis
      by (auto simp: hashmap_add_def same_fields_def)
  next
    case True
    show ?thesis
    proof (cases calloc_ok)
      case False
      with True assms(5) have "r = 0" "t = self"
        by (simp_all add: hashmap_add_def resize_def)
      with assms(1) show ?thesis
        by simp
    next
      case c: True
      have nz: "size_hm self \<noteq> 0"
        using wf by (simp add: wf_table_def)
      note d = double_size [OF nz assms(2)]
      from resize_props [OF wf d(1,2)] obtain t1 where
        t1: "resize True self (size_hm self * 2) = Some (1, t1)" "wf_table t1"
            "size_hm t1 = size_hm self * 2" "same_fields t1 self"
            "set (entries t1) = set (entries self)" "placed t1"
        by blast
      from resize_entries [OF wf t1(1) d(1,2) un]
      have u1: "unique_keys t1" and l1: "length (entries t1) = length (entries self)"
        by simp_all
      have f1: "hashcode t1 = hashcode self" "equals t1 = equals self"
        "nentries t1 = nentries self"
        using t1(4) by (simp_all add: same_fields_def)
      have h1: "hash_respects t1" "equals_sym t1"
        using assms(3,4) f1 by (simp_all add: hash_respects_def equals_sym_def)
      have c1: "unat (nentries t1) = length (entries t1)"
        using cn f1(3) l1 by simp
      have "0 < unat (size_hm self)"
        using wf by (rule wf_size_pos)
      then have "3 * Suc (length (entries self)) < 2 * (2 * unat (size_hm self)) + 3"
        using ld by presburger
      then have ld1: "3 * Suc (length (entries t1)) < 2 * unat (size_hm t1) + 3"
        using l1 t1(3) d(3) by simp
      have p1: "present t1 k \<longleftrightarrow> present self k"
        using t1(5) f1(2) by (simp add: present_def)
      from add_no_resize_invariant [OF t1(2,6) u1 h1 c1 ld1, where k = k and malloc_ok = malloc_ok and v = v and r = r and ?t2.0 = t]
        assms(5) True c t1(1)
      show ?thesis
        by (auto simp: hashmap_add_def l1 p1 f1 same_fields_def)
    qed
  qed
qed

lemma chain_remove_split:
  assumes "chain_remove eq k es = (r, es')"
  shows "(r = None \<and> es' = es \<and> (\<forall>e \<in> set es. eq (key e) k = 0))
         \<or> (\<exists>e A B. r = Some e \<and> es = A @ e # B \<and> es' = A @ B \<and> eq (key e) k \<noteq> 0)"
  using assms
proof (induction es arbitrary: r es')
  case Nil
  then show ?case
    by simp
next
  case (Cons c cs)
  show ?case
  proof (cases "eq (key c) k \<noteq> 0")
    case True
    with Cons.prems have "r = Some c" "es' = cs"
      by simp_all
    with True have "r = Some c \<and> c # cs = [] @ c # cs \<and> es' = [] @ cs \<and> eq (key c) k \<noteq> 0"
      by simp
    then show ?thesis
      by blast
  next
    case False
    obtain r1 cs1 where r1: "chain_remove eq k cs = (r1, cs1)"
      by (cases "chain_remove eq k cs")
    with Cons.prems False have r: "r = r1" "es' = c # cs1"
      by simp_all
    from Cons.IH [OF r1] show ?thesis
    proof
      assume "r1 = None \<and> cs1 = cs \<and> (\<forall>e \<in> set cs. eq (key e) k = 0)"
      with r False show ?thesis
        by simp
    next
      assume "\<exists>e A B. r1 = Some e \<and> cs = A @ e # B \<and> cs1 = A @ B \<and> eq (key e) k \<noteq> 0"
      then obtain e A B where "r1 = Some e" "cs = A @ e # B" "cs1 = A @ B" "eq (key e) k \<noteq> 0"
        by blast
      with r have "r = Some e \<and> c # cs = (c # A) @ e # B \<and> es' = (c # A) @ B \<and> eq (key e) k \<noteq> 0"
        by simp
      then show ?thesis
        by blast
    qed
  qed
qed

lemma concat_update_chain:
  assumes "b < length xs"
  shows "concat (xs[b := c]) = concat (take b xs) @ c @ concat (drop (Suc b) xs)"
proof -
  have "xs[b := c] = take b xs @ c # drop (Suc b) xs"
    using assms by (simp add: upd_conv_take_nth_drop)
  then show ?thesis
    by simp
qed

lemma hashmap_remove_invariant:
  assumes "chained_invariant self" and "hashmap_remove self k = Some (p, t)"
  shows "chained_invariant t \<and> hashcode t = hashcode self \<and> equals t = equals self
         \<and> (t = self \<or> Suc (length (entries t)) = length (entries self))"
proof -
  from assms(1) have wf: "wf_table self" and pl: "placed self" and un: "unique_keys self"
    and cn: "unat (nentries self) = length (entries self)"
    and ld: "3 * length (entries self) < 2 * unat (size_hm self) + 3"
    by (simp_all add: chained_invariant_def counted_def)
  let ?b = "bucket_index self k"
  let ?xs = "backing self"
  obtain i where i: "compress self (hashcode self k) = Some i"
    "nat (sint i) = ?b" "arr_read ?xs i = Some (?xs ! ?b)"
    using wf by (rule wf_read_bucket)
  have b: "?b < length ?xs"
    using wf by (rule wf_bucket_index_less)
  obtain r c' where cr: "chain_remove (equals self) k (?xs ! ?b) = (r, c')"
    by (cases "chain_remove (equals self) k (?xs ! ?b)")
  from chain_remove_split [OF cr] show ?thesis
  proof
    assume "r = None \<and> c' = ?xs ! ?b \<and> (\<forall>e \<in> set (?xs ! ?b). equals self (key e) k = 0)"
    with assms(2) i cr have "t = self"
      by (simp add: hashmap_remove_def)
    with assms(1) show ?thesis
      by simp
  next
    assume "\<exists>e A B. r = Some e \<and> ?xs ! ?b = A @ e # B \<and> c' = A @ B
              \<and> equals self (key e) k \<noteq> 0"
    then obtain e A B where e: "r = Some e" "?xs ! ?b = A @ e # B" "c' = A @ B"
      by blast
    with assms(2) i cr have t: "t = self\<lparr> backing := ?xs[?b := A @ B], nentries := nentries self - 1 \<rparr>"
      by (simp add: hashmap_remove_def)
    let ?L = "concat (take ?b ?xs)" and ?R = "concat (drop (Suc ?b) ?xs)"
    have es: "entries self = (?L @ A) @ e # (B @ ?R)"
      using concat_update_cons(2) [OF b] e(2) by (simp add: entries_def)
    have et: "entries t = (?L @ A) @ (B @ ?R)"
      using concat_update_chain [OF b, of "A @ B"] by (simp add: t entries_def)
    have "wf_table t"
      using wf by (simp add: t wf_table_def)
    moreover have "placed t"
      unfolding placed_def
    proof (intro allI impI ballI)
      fix j x
      assume j: "j < length (backing t)" and x: "x \<in> set (backing t ! j)"
      have "x \<in> set (?xs ! j)"
      proof (cases "j = ?b")
        case True
        with x b e(2) show ?thesis
          by (auto simp: t)
      next
        case False
        with x show ?thesis
          by (simp add: t)
      qed
      moreover have "j < length ?xs"
        using j by (simp add: t)
      ultimately have "bucket_index self (key x) = j"
        using pl by (simp add: placed_def)
      then show "bucket_index t (key x) = j"
        by (simp add: t bucket_index_def)
    qed
    moreover have "unique_keys t"
    proof -
      have "sorted_wrt (unequal_keys (equals self)) ((?L @ A) @ e # (B @ ?R))"
        using un es by (simp add: unique_keys_sorted_wrt)
      then have "sorted_wrt (unequal_keys (equals self)) ((?L @ A) @ (B @ ?R))"
        unfolding sorted_wrt_insert_mid by blast
      moreover have "equals t = equals self"
        by (simp add: t)
      ultimately show ?thesis
        by (simp only: unique_keys_sorted_wrt et)
    qed
    moreover have len: "Suc (length (entries t)) = length (entries self)"
      by (simp add: es et)
    moreover have "counted t"
    proof -
      have "unat (nentries self) \<noteq> 0"
        using cn es by simp
      then have "nentries self \<noteq> 0"
        by (simp add: unat_eq_0)
      then have "unat (nentries self - 1) = unat (nentries self) - 1"
        by (rule unat_minus_one)
      with cn ld len show ?thesis
        by (simp add: counted_def t entries_def)
    qed
    moreover have "hashcode t = hashcode self" "equals t = equals self"
      by (simp_all add: t)
    ultimately show ?thesis
      by (simp add: chained_invariant_def)
  qed
qed

lemma hashmap_init_invariant:
  "chained_invariant (snd (hashmap_init True [] self hash_func equals_func))"
  by (simp add: hashmap_init_def HASHMAP_INIT_SIZE_def chained_invariant_def wf_table_def
      placed_def unique_keys_def counted_def entries_def)

lemma add_entry_callbacks:
  "add_entry self e = Some t \<Longrightarrow> same_callbacks t self"
  by (auto simp: add_entry_def same_callbacks_def split: option.splits)

lemma rehash_callbacks:
  "rehash self es = Some t \<Longrightarrow> same_callbacks t self"
proof (induction es arbitrary: self)
  case Nil
  then show ?case
    by (simp add: same_callbacks_def)
next
  case (Cons e es)
  then obtain t1 where "add_entry self e = Some t1" "rehash t1 es = Some t"
    by (auto split: option.splits)
  with Cons.IH [of t1] add_entry_callbacks [of self e t1] show ?case
    by (simp add: same_callbacks_def)
qed

lemma rehash_buckets_callbacks:
  "rehash_buckets self bs = Some t \<Longrightarrow> same_callbacks t self"
proof (induction bs arbitrary: self)
  case Nil
  then show ?case
    by (simp add: same_callbacks_def)
next
  case (Cons b bs)
  then obtain t1 where "rehash self b = Some t1" "rehash_buckets t1 bs = Some t"
    by (auto split: option.splits)
  with Cons.IH [of t1] rehash_callbacks [of self b t1] show ?case
    by (simp add: same_callbacks_def)
qed

lemma resize_callbacks:
  assumes "resize calloc_ok self new_size = Some (r, t)"
  shows "same_callbacks t self"
proof (cases calloc_ok)
  case False
  with assms show ?thesis
    by (simp add: resize_def same_callbacks_def)
next
  case True
  with assms have
    "rehash_buckets (self\<lparr> size_hm := new_size, backing := replicate (unat new_size) [] \<rparr>)
       (take (unat (size_hm self)) (backing self)) = Some t"
    by (auto simp: resize_def split: if_splits option.splits)
  from rehash_buckets_callbacks [OF this] show ?thesis
    by (simp add: same_callbacks_def)
qed

lemma hashmap_add_callbacks:
  assumes "hashmap_add calloc_ok malloc_ok self k v = Some (r, t)"
  shows "same_callbacks t self"
proof -
  obtain r1 t1 where
    1: "(if load_exceeded self then resize calloc_ok self (size_hm self * 2) else Some (1, self))
          = Some (r1, t1)"
    using assms by (auto simp: hashmap_add_def split: option.splits)
  then have c1: "same_callbacks t1 self"
    using resize_callbacks [of calloc_ok self "size_hm self * 2" r1 t1]
    by (auto simp: same_callbacks_def split: if_splits)
  have "same_callbacks t t1"
    using assms 1 add_entry_callbacks [of t1 "\<lparr> key = k, value = v \<rparr>"]
    by (auto simp: hashmap_add_def same_callbacks_def split: option.splits if_splits)
  with c1 show ?thesis
    by (simp add: same_callbacks_def)
qed

lemma hashmap_remove_callbacks:
  assumes "hashmap_remove self k = Some (p, t)"
  shows "same_callbacks t self"
  using assms
  by (auto simp: hashmap_remove_def same_callbacks_def split: option.splits prod.splits)

lemma callbacks_ok_cong:
  assumes "same_callbacks t self"
  shows "hash_respects t \<longleftrightarrow> hash_respects self" and "equals_sym t \<longleftrightarrow> equals_sym self"
  using assms by (simp_all add: same_callbacks_def hash_respects_def equals_sym_def)

lemma reachable_invariant:
  assumes "reachable t"
  shows "hash_respects t \<and> equals_sym t \<longrightarrow> chained_invariant t"
  using assms
proof (induction rule: reachable.induct)
  case (new fresh hash_func equals_func t)
  then have "t = snd (hashmap_init True [] fresh hash_func equals_func)"
    by (simp add: hashmap_new_def)
  then show ?case
    by (simp add: hashmap_init_invariant)
next
  case (add t calloc_ok malloc_ok k v r t')
  show ?case
  proof
    assume h: "hash_respects t' \<and> equals_sym t'"
    have "same_callbacks t' t"
      using add.hyps(3) by (rule hashmap_add_callbacks)
    with h have ht: "hash_respects t" "equals_sym t"
      by (simp_all add: callbacks_ok_cong)
    with add.IH have "chained_invariant t"
      by simp
    from hashmap_add_invariant [OF this add.hyps(2) ht add.hyps(3)]
    show "chained_invariant t'"
      by simp
  qed
next
  case (remove t k p t')
  show ?case
  proof
    assume h: "hash_respects t' \<and> equals_sym t'"
    have "same_callbacks t' t"
      using remove.hyps(2) by (rule hashmap_remove_callbacks)
    with h have "hash_respects t" "equals_sym t"
      by (simp_all add: callbacks_ok_cong)
    with remove.IH have "chained_invariant t"
      by simp
    from hashmap_remove_invariant [OF this remove.hyps(2)]
    show "chained_invariant t'"
      by simp
  qed
next
  case (clear t)
  have "hashmap_clear True t
      = snd (hashmap_init True [] (t\<lparr> backing := [] \<rparr>) (Some (hashcode t)) (Some (equals t)))"
    by (simp add: hashmap_clear_def)
  then show ?case
    by (simp add: hashmap_init_invariant)
qed

lemma reachable_chained_unique_and_counted:
  assumes "reachable t" and "hash_respects t" and "equals_sym t"
  shows "unique_keys t" and "unat (hashmap_size t) = length (entries t)"
  using reachable_invariant [OF assms(1)] assms(2,3)
  by (simp_all add: chained_invariant_def counted_def hashmap_size_def)

section \<open>What get returns after add and after resize\<close>

lemma resize_preserves_get:
  assumes "wf_table self" and "placed self" and "unique_keys self"
    and "hash_respects self" and "equals_sym self" and "equals_trans self"
    and "new_size \<noteq> 0" and "uint new_size < 2 ^ 31"
  shows "\<exists>t. resize True self new_size = Some (1, t) \<and> size_hm t = new_size
           \<and> (\<forall>k. hashmap_get t k = hashmap_get self k)"
proof -
  from resize_props [OF assms(1,7,8)] obtain t where
    t: "resize True self new_size = Some (1, t)" "wf_table t" "size_hm t = new_size"
       "same_fields t self" "set (entries t) = set (entries self)" "placed t"
    by blast
  have fn: "hashcode t = hashcode self" "equals t = equals self"
    using t(4) by (simp_all add: same_fields_def)
  have "hashmap_get t k = hashmap_get self k" for k
    using assms(1) t(2) assms(2) t(6) fn t(5) assms(4) assms(3) assms(5) assms(6)
    by (rule get_same_entries)
  with t(1,3) show ?thesis
    by blast
qed

lemma add_then_get:
  assumes "wf_table self" and "uint (size_hm self) < 2 ^ 30"
    and "equals self k k \<noteq> 0"
    and "hashmap_add calloc_ok malloc_ok self k v = Some (1, t)"
  shows "hashmap_get t k = Some v
         \<and> hashmap_contains t k = Some (if v = NULL then 0 else 1)"
proof -
  obtain r1 t1 where
    1: "(if load_exceeded self then resize calloc_ok self (size_hm self * 2) else Some (1, self))
          = Some (r1, t1)"
    using assms(4) by (auto simp: hashmap_add_def split: option.splits)
  have r1: "r1 \<noteq> 0"
    using assms(4) 1 by (auto simp: hashmap_add_def)
  have nz: "size_hm self \<noteq> 0"
    using assms(1) by (simp add: wf_table_def)
  note d = double_size [OF nz assms(2)]
  have wf1: "wf_table t1" and e1: "equals t1 = equals self"
  proof -
    show "wf_table t1"
    proof (cases "load_exceeded self \<and> calloc_ok")
      case True
      with resize_props [OF assms(1) d(1,2)] 1 show ?thesis
        by auto
    next
      case False
      with 1 r1 assms(1) show ?thesis
        by (auto simp: resize_def split: if_splits)
    qed
    have "same_callbacks t1 self"
      using 1 resize_callbacks [of calloc_ok self "size_hm self * 2" r1 t1]
      by (auto simp: same_callbacks_def split: if_splits)
    then show "equals t1 = equals self"
      by (simp add: same_callbacks_def)
  qed
  let ?e = "\<lparr> key = k, value = v \<rparr>"
  let ?b = "bucket_index t1 k"
  obtain t2 where t2: "add_entry t1 ?e = Some t2"
    using add_entry_eq [OF wf1] by blast
  have t: "t = t2\<lparr> nentries := nentries t2 + 1 \<rparr>"
    using assms(4) 1 r1 t2 by (auto simp: hashmap_add_def split: option.splits if_splits)
  have b: "?b < length (backing t1)"
    using wf1 by (rule wf_bucket_index_less)
  have t2': "t2 = t1\<lparr> backing := (backing t1)[?b := ?e # backing t1 ! ?b] \<rparr>"
    using t2 add_entry_eq [OF wf1, of ?e] by simp
  have wft: "wf_table t"
    using add_entry_props(1) [OF wf1 t2] by (simp add: t wf_table_def)
  have "bucket_index t k = ?b" "backing t ! ?b = ?e # backing t1 ! ?b" "equals t = equals self"
    using b e1 by (simp_all add: t t2' bucket_index_def)
  then have "hashmap_get t k = Some v"
    using assms(3) by (simp add: hashmap_get_eq [OF wft])
  then show ?thesis
    by (simp add: hashmap_contains_def)
qed

lemma probe_index_distinct:
  assumes "wf_table self" and "m < j" and "j < unat (size_hm self)"
  shows "probe_index self k m \<noteq> probe_index self k j"
proof -
  let ?n = "unat (size_hm self)"
  let ?h = "(bucket_index self k + m) mod ?n"
  have n: "0 < ?n"
    using assms(1) by (rule wf_size_pos)
  then have "?h < ?n"
    by simp
  moreover have "0 < j - m" "j - m < ?n"
    using assms(2,3) by simp_all
  ultimately have "(?h + (j - m)) mod ?n \<noteq> ?h"
    by (rule mod_shift_neq)
  moreover have "(?h + (j - m)) mod ?n = (bucket_index self k + m + (j - m)) mod ?n"
    by (simp add: mod_add_left_eq)
  moreover have "bucket_index self k + m + (j - m) = bucket_index self k + j"
    using assms(2) by simp
  ultimately show ?thesis
    by (simp add: probe_index_def)
qed

lemma add_entry_probe_stored:
  assumes "wf_table self"
    and "0 \<le> sint flag" and "nat (sint flag) = probe_index self k 0"
    and "0 \<le> sint i" and "nat (sint i) = probe_index self k m" and "m < unat (size_hm self)"
    and "\<forall>m' < m. state (backing self ! probe_index self k m') = ACTIVE
           \<and> equals self (key (backing self ! probe_index self k m')) (key entry) = 0"
    and "add_entry_probe self entry flag i (backing self ! probe_index self k m) = Some (r, t)"
    and "r \<noteq> 0"
  shows "\<exists>j < unat (size_hm self).
           t = self\<lparr> backing := (backing self)[probe_index self k j := entry] \<rparr>
           \<and> (\<forall>m' < j. state (backing self ! probe_index self k m') = ACTIVE
                 \<and> equals self (key (backing self ! probe_index self k m')) (key entry) = 0)"
  using assms(4-9)
proof (induction "unat (size_hm self) - m" arbitrary: m i)
  case 0
  then show ?case
    by simp
next
  case (Suc n)
  let ?cur = "backing self ! probe_index self k m"
  show ?case
  proof (cases "state ?cur = ACTIVE")
    case False
    have ib: "in_bounds (backing self) i"
      using Suc.prems(1,2) probe_index_less [OF assms(1), of k m] by (simp add: in_bounds_def)
    from Suc.prems(5) False ib
    have "t = self\<lparr> backing := (backing self)[probe_index self k m := entry] \<rparr>"
      by (subst (asm) add_entry_probe.simps) (simp add: arr_write_def Suc.prems(2))
    with Suc.prems(3,4) show ?thesis
      by blast
  next
    case True
    have e: "equals self (key ?cur) (key entry) = 0"
      using Suc.prems(5,6) True by (subst (asm) add_entry_probe.simps) (auto split: if_splits)
    obtain i' where i': "update_index self i = Some i'" "0 \<le> sint i'"
      "nat (sint i') = probe_index self k (Suc m)"
      "arr_read (backing self) i' = Some (backing self ! probe_index self k (Suc m))"
      using assms(1) Suc.prems(1,2) by (rule probe_step)
    have f: "i' \<noteq> flag"
      using Suc.prems(5,6) True e i' by (subst (asm) add_entry_probe.simps) (auto split: if_splits)
    then have "probe_index self k (Suc m) \<noteq> probe_index self k 0"
      using i'(2,3) assms(2,3) by (simp add: index_eq_iff)
    with assms(1) have lt: "Suc m < unat (size_hm self)"
      using Suc.prems(3) by (rule probe_index_cycle)
    have n: "n = unat (size_hm self) - Suc m"
      using Suc.hyps(2) by simp
    have pre: "\<forall>m' < Suc m. state (backing self ! probe_index self k m') = ACTIVE
           \<and> equals self (key (backing self ! probe_index self k m')) (key entry) = 0"
      using Suc.prems(4) True e by (auto simp: less_Suc_eq)
    have rec: "add_entry_probe self entry flag i' (backing self ! probe_index self k (Suc m))
                 = Some (r, t)"
      using Suc.prems(5) True e i' f by (subst (asm) add_entry_probe.simps) simp
    from Suc.hyps(1) [OF n i'(2,3) lt pre rec Suc.prems(6)] show ?thesis .
  qed
qed

lemma add_entry_oa_stored:
  assumes "wf_table self" and "add_entry_oa self entry = Some (r, t)" and "r \<noteq> 0"
  shows "\<exists>j < unat (size_hm self).
           t = self\<lparr> backing := (backing self)[probe_index self (key entry) j := entry] \<rparr>
           \<and> (\<forall>m' < j. state (backing self ! probe_index self (key entry) m') = ACTIVE
                 \<and> equals self (key (backing self ! probe_index self (key entry) m')) (key entry) = 0)"
proof -
  let ?k = "key entry"
  from wf_compress [OF assms(1), of ?k] obtain i where
    i: "compress self (hashcode self ?k) = Some i" "0 \<le> sint i"
       "nat (sint i) = bucket_index self ?k" "bucket_index self ?k < length (backing self)"
    by blast
  have p: "nat (sint i) = probe_index self ?k 0"
    using i(3) assms(1) by (simp add: probe_index_0)
  have rd: "arr_read (backing self) i = Some (backing self ! probe_index self ?k 0)"
    using i(2,4) p assms(1) by (simp add: arr_read_def in_bounds_def probe_index_0)
  have "add_entry_probe self entry i i (backing self ! probe_index self ?k 0) = Some (r, t)"
    using assms(2) i(1) rd by (simp add: add_entry_oa_def)
  from add_entry_probe_stored [OF assms(1) i(2) p i(2) p wf_size_pos [OF assms(1)] _ this assms(3)]
  show ?thesis
    by simp
qed

lemma add_then_get_oa:
  assumes "wf_table self" and "uint (size_hm self) < 2 ^ 30"
    and "equals self k k \<noteq> 0"
    and "hashmap_add_oa calloc_ok self k v = Some (1, t)"
  shows "hashmap_get_oa t k = Some v
         \<and> hashmap_contains_oa t k = Some (if v = NULL then 0 else 1)"
proof -
  let ?e = "\<lparr> key = k, value = v, state = ACTIVE \<rparr>"
  obtain r1 t1 where
    1: "(if load_exceeded self then resize_oa calloc_ok self (size_hm self * 2) else Some (1, self))
          = Some (r1, t1)"
    using assms(4) by (auto simp: hashmap_add_oa_def split: option.splits)
  have r1: "r1 \<noteq> 0"
    using assms(4) 1 by (auto simp: hashmap_add_oa_def)
  have nz: "size_hm self \<noteq> 0"
    using assms(1) by (simp add: wf_table_def)
  note d = double_size [OF nz assms(2)]
  have "wf_table t1 \<and> equals t1 = equals self"
  proof (cases "load_exceeded self \<and> calloc_ok")
    case True
    with resize_oa_total [OF assms(1) d(1,2)] 1 show ?thesis
      by (auto simp: same_fields_def)
  next
    case False
    with 1 r1 assms(1) show ?thesis
      by (auto simp: resize_oa_def split: if_splits)
  qed
  then have wf1: "wf_table t1" and e1: "equals t1 = equals self"
    by simp_all
  obtain r2 t2 where 2: "add_entry_oa t1 ?e = Some (r2, t2)"
    using assms(4) 1 r1 by (auto simp: hashmap_add_oa_def split: option.splits)
  have r2: "r2 \<noteq> 0" and t: "t = t2\<lparr> nentries := nentries t2 + 1 \<rparr>"
    using assms(4) 1 r1 2 by (auto simp: hashmap_add_oa_def split: if_splits)
  from add_entry_oa_stored [OF wf1 2 r2] obtain j where
    j: "j < unat (size_hm t1)"
       "t2 = t1\<lparr> backing := (backing t1)[probe_index t1 k j := ?e] \<rparr>"
       "\<forall>m' < j. state (backing t1 ! probe_index t1 k m') = ACTIVE
           \<and> equals t1 (key (backing t1 ! probe_index t1 k m')) k = 0"
    by auto
  have wft: "wf_table t"
    using wf1 by (simp add: t j(2) wf_table_def)
  have pi: "probe_index t k m = probe_index t1 k m" for m
    by (simp add: t j(2) probe_index_def bucket_index_def)
  have bt: "backing t = (backing t1)[probe_index t1 k j := ?e]" "size_hm t = size_hm t1"
    "equals t = equals self"
    using e1 by (simp_all add: t j(2))
  have here: "backing t ! probe_index t k j = ?e"
    using probe_index_less [OF wf1, of k j] by (simp add: bt pi)
  have before: "backing t ! probe_index t k m = backing t1 ! probe_index t1 k m" if "m < j" for m
    using probe_index_distinct [OF wf1 that j(1), of k] by (simp add: bt pi)
  have "found_at t k j"
    using j(1,3) here before assms(3) e1 by (simp add: found_at_def bt)
  from find_entry_found [OF wft this] obtain r where
    "find_entry t k = Some (Some r)"
    "arr_read (backing t) r = Some (backing t ! probe_index t k j)"
    by blast
  then have "hashmap_get_oa t k = Some v"
    by (simp add: hashmap_get_oa_def here)
  then show ?thesis
    by (simp add: hashmap_contains_oa_def)
qed

section \<open>The open-addressing table: where add_entry stops\<close>

text \<open>
  The loop of \<open>add_entry\<close> goes from slot to slot of the probe as long as the
  slots are \<open>ACTIVE\<close> with unequal keys. At the first other slot it returns 0
  when the slot is \<open>ACTIVE\<close>, and stores the entry there when it is not; after
  as many steps as the table has slots it is back at the start index and returns 0.
\<close>

lemma add_entry_probe_skip:
  assumes "wf_table self"
    and "0 \<le> sint flag" and "nat (sint flag) = probe_index self (key entry) 0"
    and "passed self (key entry) j" and "j < unat (size_hm self)"
    and "0 \<le> sint i" and "nat (sint i) = probe_index self (key entry) m" and "m \<le> j"
  shows "\<exists>i'. 0 \<le> sint i' \<and> nat (sint i') = probe_index self (key entry) j
           \<and> add_entry_probe self entry flag i (probe_slot self (key entry) m)
               = add_entry_probe self entry flag i' (probe_slot self (key entry) j)"
  using assms(6-8)
proof (induction "j - m" arbitrary: m i)
  case 0
  then have "m = j"
    by simp
  with 0 show ?case
    by blast
next
  case (Suc n)
  let ?k = "key entry"
  from Suc have lt: "m < j"
    by simp
  with assms(4) have cur: "state (probe_slot self ?k m) = ACTIVE"
    "equals self (key (probe_slot self ?k m)) ?k = 0"
    by (simp_all add: passed_def)
  obtain i1 where i1: "update_index self i = Some i1" "0 \<le> sint i1"
    "nat (sint i1) = probe_index self ?k (Suc m)"
    "arr_read (backing self) i1 = Some (backing self ! probe_index self ?k (Suc m))"
    using assms(1) Suc.prems(1,2) by (rule probe_step)
  have "0 < Suc m" "Suc m < unat (size_hm self)"
    using lt assms(5) by simp_all
  with assms(1) have "probe_index self ?k 0 \<noteq> probe_index self ?k (Suc m)"
    by (intro probe_index_distinct)
  then have f: "i1 \<noteq> flag"
    using i1(2,3) assms(2,3) by (simp add: index_eq_iff)
  have one: "add_entry_probe self entry flag i (probe_slot self ?k m)
               = add_entry_probe self entry flag i1 (probe_slot self ?k (Suc m))"
    using cur i1 f by (subst add_entry_probe.simps) (simp add: probe_slot_def)
  have "n = j - Suc m" "Suc m \<le> j"
    using Suc.hyps(2) lt by simp_all
  from Suc.hyps(1) [OF this(1) i1(2,3) this(2)] one show ?case
    by simp
qed

lemma add_entry_oa_probe:
  assumes "wf_table self" and "passed self (key entry) j" and "j < unat (size_hm self)"
  shows "\<exists>i flag. 0 \<le> sint i \<and> nat (sint i) = probe_index self (key entry) j
           \<and> 0 \<le> sint flag \<and> nat (sint flag) = probe_index self (key entry) 0
           \<and> add_entry_oa self entry
               = add_entry_probe self entry flag i (probe_slot self (key entry) j)"
proof -
  let ?k = "key entry"
  from wf_compress [OF assms(1), of ?k] obtain i where
    i: "compress self (hashcode self ?k) = Some i" "0 \<le> sint i"
       "nat (sint i) = bucket_index self ?k" "bucket_index self ?k < length (backing self)"
    by blast
  have p: "nat (sint i) = probe_index self ?k 0"
    using i(3) assms(1) by (simp add: probe_index_0)
  have rd: "arr_read (backing self) i = Some (probe_slot self ?k 0)"
    using i(2,4) p assms(1) by (simp add: arr_read_def in_bounds_def probe_index_0 probe_slot_def)
  have "add_entry_oa self entry = add_entry_probe self entry i i (probe_slot self ?k 0)"
    using i(1) rd by (simp add: add_entry_oa_def)
  with add_entry_probe_skip [OF assms(1) i(2) p assms(2,3) i(2) p] i(2) p show ?thesis
    by auto
qed

lemma add_entry_oa_refuses:
  assumes "wf_table self" and "passed self (key entry) j" and "j < unat (size_hm self)"
    and "state (probe_slot self (key entry) j) = ACTIVE"
    and "equals self (key (probe_slot self (key entry) j)) (key entry) \<noteq> 0"
  shows "add_entry_oa self entry = Some (0, self)"
proof -
  from add_entry_oa_probe [OF assms(1-3)] obtain i flag where
    "add_entry_oa self entry
       = add_entry_probe self entry flag i (probe_slot self (key entry) j)"
    by blast
  with assms(4,5) show ?thesis
    by (subst (asm) add_entry_probe.simps) simp
qed

lemma add_entry_oa_stores:
  assumes "wf_table self" and "passed self (key entry) j" and "j < unat (size_hm self)"
    and "state (probe_slot self (key entry) j) \<noteq> ACTIVE"
  shows "add_entry_oa self entry
           = Some (1, self\<lparr> backing := (backing self)[probe_index self (key entry) j := entry] \<rparr>)"
proof -
  from add_entry_oa_probe [OF assms(1-3)] obtain i flag where
    i: "0 \<le> sint i" "nat (sint i) = probe_index self (key entry) j"
    and a: "add_entry_oa self entry
       = add_entry_probe self entry flag i (probe_slot self (key entry) j)"
    by blast
  have "in_bounds (backing self) i"
    using i probe_index_less [OF assms(1), of "key entry" j] by (simp add: in_bounds_def)
  with a assms(4) i(2) show ?thesis
    by (subst (asm) add_entry_probe.simps) (simp add: arr_write_def)
qed

lemma add_entry_oa_cycle:
  assumes "wf_table self" and "passed self (key entry) (unat (size_hm self))"
  shows "add_entry_oa self entry = Some (0, self)"
proof -
  let ?k = "key entry"
  let ?n = "unat (size_hm self)"
  have pos: "0 < ?n"
    using assms(1) by (rule wf_size_pos)
  then have lt: "?n - 1 < ?n"
    by simp
  have pre: "passed self ?k (?n - 1)"
    using assms(2) by (simp add: passed_def)
  from add_entry_oa_probe [OF assms(1) pre lt] obtain i flag where
    i: "0 \<le> sint i" "nat (sint i) = probe_index self ?k (?n - 1)"
    and fl: "0 \<le> sint flag" "nat (sint flag) = probe_index self ?k 0"
    and a: "add_entry_oa self entry
       = add_entry_probe self entry flag i (probe_slot self ?k (?n - 1))"
    by blast
  from assms(2) lt have cur: "state (probe_slot self ?k (?n - 1)) = ACTIVE"
    "equals self (key (probe_slot self ?k (?n - 1))) ?k = 0"
    by (simp_all add: passed_def)
  obtain i1 where i1: "update_index self i = Some i1" "0 \<le> sint i1"
    "nat (sint i1) = probe_index self ?k (Suc (?n - 1))"
    "arr_read (backing self) i1 = Some (backing self ! probe_index self ?k (Suc (?n - 1)))"
    using assms(1) i by (rule probe_step)
  have "probe_index self ?k (Suc (?n - 1)) = probe_index self ?k 0"
    using pos by (simp add: probe_index_def)
  then have "i1 = flag"
    using i1(2,3) fl by (simp add: index_eq_iff)
  with a cur i1 show ?thesis
    by (subst (asm) add_entry_probe.simps) simp
qed

section \<open>A stored NULL value\<close>

text \<open>
  Claim C1. After \<open>insert(t, k, v)\<close> returns true, \<open>get(t, k)\<close> returns \<open>v\<close> and
  \<open>contains(t, k)\<close> returns true. On both tables the insert of key 5 with the value
  \<open>NULL\<close> into the new table returns 1 and \<open>get\<close> returns the value, but
  \<open>contains\<close> returns 0.
\<close>

theorem add_null_value_not_contained:
  "(case hashmap_new True True [] fresh_mem None None of
      None \<Rightarrow> False
    | Some t0 \<Rightarrow>
       (case hashmap_add True True t0 5 NULL of
          None \<Rightarrow> False
        | Some (r, t1) \<Rightarrow>
           r = 1 \<and> hashmap_get t1 5 = Some NULL \<and> hashmap_contains t1 5 = Some 0))
   \<and> (case hashmap_new True True zero_slot fresh_mem None None of
      None \<Rightarrow> False
    | Some t0 \<Rightarrow>
       (case hashmap_add_oa True t0 5 NULL of
          None \<Rightarrow> False
        | Some (r, t1) \<Rightarrow>
           r = 1 \<and> hashmap_get_oa t1 5 = Some NULL \<and> hashmap_contains_oa t1 5 = Some 0))"
  by code_simp

text \<open>
  Claim C8. \<open>remove\<close> and \<open>get\<close> on an absent key give a result that no stored
  value can equal. In the tables that map key 5 to \<open>NULL\<close>, key 6 is absent, and
  \<open>get\<close> and \<open>remove\<close> return the same pointer for both keys; only the count
  afterwards tells that \<open>remove 5\<close> took an entry out and \<open>remove 6\<close> did not.
\<close>

theorem absent_result_is_a_stored_value:
  "(case null_value_table of
      None \<Rightarrow> False
    | Some t \<Rightarrow>
       hashmap_size t = 1
       \<and> hashmap_get t 5 = Some NULL \<and> hashmap_get t 6 = Some NULL
       \<and> map_option fst (hashmap_remove t 5) = Some NULL
       \<and> map_option fst (hashmap_remove t 6) = Some NULL
       \<and> map_option (hashmap_size \<circ> snd) (hashmap_remove t 5) = Some 0
       \<and> map_option (hashmap_size \<circ> snd) (hashmap_remove t 6) = Some 1)
   \<and> (case null_value_table_oa of
      None \<Rightarrow> False
    | Some t \<Rightarrow>
       hashmap_size t = 1
       \<and> hashmap_get_oa t 5 = Some NULL \<and> hashmap_get_oa t 6 = Some NULL
       \<and> map_option fst (hashmap_remove_oa t 5) = Some NULL
       \<and> map_option fst (hashmap_remove_oa t 6) = Some NULL
       \<and> map_option (hashmap_size \<circ> snd) (hashmap_remove_oa t 5) = Some 0
       \<and> map_option (hashmap_size \<circ> snd) (hashmap_remove_oa t 6) = Some 1)"
  by code_simp

section \<open>The insertion probe\<close>

text \<open>
  Claim C7 as stated fails on the tombstones. After ten rounds of
  \<open>test_add_immediate_remove\<close> on the new table, with the keys 0 to 9, every
  one of the ten slots is \<open>DELETED\<close>: no slot is \<open>EMPTY\<close>, and no key is
  live. The probe of key 10 starts at index 0; \<open>add_entry\<close> does not go past that
  tombstone but stores the entry into it and returns 1. The next two rounds of the
  test, with the keys 10 and 11, pass all their assertions.
\<close>

theorem add_entry_stores_into_tombstone:
  "(case hashmap_new True True zero_slot fresh_mem None None of
      None \<Rightarrow> False
    | Some t0 \<Rightarrow>
       (case test_add_immediate_remove 10 0 t0 of
          None \<Rightarrow> False
        | Some t \<Rightarrow>
           size_hm t = 10
           \<and> map state (backing t)
               = [DELETED, DELETED, DELETED, DELETED, DELETED,
                  DELETED, DELETED, DELETED, DELETED, DELETED]
           \<and> compress t (hashcode t 10) = Some 0
           \<and> (case add_entry_oa t \<lparr> key = 10, value = 10, state = ACTIVE \<rparr> of
                None \<Rightarrow> False
              | Some (r, t') \<Rightarrow>
                 r = 1
                 \<and> arr_read (backing t') 0 = Some \<lparr> key = 10, value = 10, state = ACTIVE \<rparr>
                 \<and> live_slots t' = [\<lparr> key = 10, value = 10, state = ACTIVE \<rparr>])
           \<and> (case test_add_immediate_remove 2 10 t of None \<Rightarrow> False | Some t' \<Rightarrow> True)))"
  by code_simp

text \<open>
  Claim C7, as amended. In a well-formed open-addressing table the insertion probe
  starts at the index \<open>compress(hash(key))\<close> and goes past the \<open>ACTIVE\<close>
  slots whose keys are not equal to the new key. When the first slot that it does not
  pass is \<open>ACTIVE\<close> with an equal key, \<open>add_entry\<close> returns 0 and the table
  is as it was. When that slot is not \<open>ACTIVE\<close>, that is \<open>EMPTY\<close> or a
  tombstone, and no \<open>ACTIVE\<close> slot of the table holds a key equal to the new one,
  \<open>add_entry\<close> stores the entry into that slot, changes no other slot and returns
  1. When the probe passes every slot of the table it is back at its start index, and
  \<open>add_entry\<close> returns 0 with the table as it was.
\<close>

theorem add_entry_probe_places:
  assumes "wf_table self"
  shows "(\<exists>i. compress self (hashcode self (key entry)) = Some i \<and> 0 \<le> sint i
              \<and> nat (sint i) = probe_index self (key entry) 0)
         \<and> (j < unat (size_hm self) \<and> passed self (key entry) j
              \<and> state (probe_slot self (key entry) j) = ACTIVE
              \<and> equals self (key (probe_slot self (key entry) j)) (key entry) \<noteq> 0
            \<longrightarrow> add_entry_oa self entry = Some (0, self))
         \<and> (j < unat (size_hm self) \<and> passed self (key entry) j
              \<and> state (probe_slot self (key entry) j) \<noteq> ACTIVE
              \<and> \<not> live_key self (key entry)
            \<longrightarrow> add_entry_oa self entry
                  = Some (1, self\<lparr> backing :=
                                    (backing self)[probe_index self (key entry) j := entry] \<rparr>))
         \<and> (passed self (key entry) (unat (size_hm self))
            \<longrightarrow> add_entry_oa self entry = Some (0, self))"
proof (intro conjI impI)
  from wf_compress [OF assms, of "key entry"] probe_index_0 [OF assms, of "key entry"]
  show "\<exists>i. compress self (hashcode self (key entry)) = Some i \<and> 0 \<le> sint i
              \<and> nat (sint i) = probe_index self (key entry) 0"
    by auto
next
  assume "j < unat (size_hm self) \<and> passed self (key entry) j
              \<and> state (probe_slot self (key entry) j) = ACTIVE
              \<and> equals self (key (probe_slot self (key entry) j)) (key entry) \<noteq> 0"
  with assms show "add_entry_oa self entry = Some (0, self)"
    by (intro add_entry_oa_refuses [where j = j]) simp_all
next
  assume "j < unat (size_hm self) \<and> passed self (key entry) j
              \<and> state (probe_slot self (key entry) j) \<noteq> ACTIVE
              \<and> \<not> live_key self (key entry)"
  with assms show "add_entry_oa self entry
                  = Some (1, self\<lparr> backing :=
                                    (backing self)[probe_index self (key entry) j := entry] \<rparr>)"
    by (intro add_entry_oa_stores) simp_all
next
  assume "passed self (key entry) (unat (size_hm self))"
  with assms show "add_entry_oa self entry = Some (0, self)"
    by (rule add_entry_oa_cycle)
qed

lemma less_10_cases:
  fixes m :: nat
  shows "m < 10 \<longleftrightarrow> m = 0 \<or> m = 1 \<or> m = 2 \<or> m = 3 \<or> m = 4 \<or> m = 5 \<or> m = 6 \<or> m = 7
           \<or> m = 8 \<or> m = 9"
  by arith

theorem add_entry_probe_places_witness:
  "wf_table wrapped_slots
   \<and> probe_index wrapped_slots 19 0 = 9 \<and> probe_index wrapped_slots 19 1 = 0
   \<and> passed wrapped_slots 19 1
   \<and> add_entry_oa wrapped_slots \<lparr> key = 19, value = 3, state = ACTIVE \<rparr>
       = Some (0, wrapped_slots)
   \<and> passed wrapped_slots 29 2 \<and> probe_index wrapped_slots 29 2 = 1
   \<and> state (probe_slot wrapped_slots 29 2) = EMPTY
   \<and> add_entry_oa wrapped_slots \<lparr> key = 29, value = 3, state = ACTIVE \<rparr>
       = Some (1, wrapped_slots\<lparr> backing :=
            (backing wrapped_slots)[1 := \<lparr> key = 29, value = 3, state = ACTIVE \<rparr>] \<rparr>)
   \<and> wf_table null_slots \<and> probe_index null_slots 29 0 = 9
   \<and> state (probe_slot null_slots 29 0) = DELETED
   \<and> add_entry_oa null_slots \<lparr> key = 29, value = 3, state = ACTIVE \<rparr>
       = Some (1, null_slots\<lparr> backing :=
            (backing null_slots)[9 := \<lparr> key = 29, value = 3, state = ACTIVE \<rparr>] \<rparr>)
   \<and> wf_table full_slots \<and> passed full_slots 15 (unat (size_hm full_slots))
   \<and> add_entry_oa full_slots \<lparr> key = 15, value = 3, state = ACTIVE \<rparr> = Some (0, full_slots)"
proof -
  have wf: "wf_table wrapped_slots" "wf_table null_slots" "wf_table full_slots"
    by (simp_all add: wf_table_def wrapped_slots_def null_slots_def full_slots_def)
  have pi: "probe_index wrapped_slots 19 0 = 9" "probe_index wrapped_slots 19 1 = 0"
    "probe_index wrapped_slots 29 2 = 1" "probe_index null_slots 29 0 = 9"
    by code_simp+
  have a: "1 < unat (size_hm wrapped_slots)" "passed wrapped_slots 19 1"
    "state (probe_slot wrapped_slots 19 1) = ACTIVE"
    "equals wrapped_slots (key (probe_slot wrapped_slots 19 1)) 19 \<noteq> 0"
    by code_simp+
  have b: "2 < unat (size_hm wrapped_slots)" "passed wrapped_slots 29 2"
    "state (probe_slot wrapped_slots 29 2) = EMPTY" "\<not> live_key wrapped_slots 29"
    by code_simp+
  have c: "0 < unat (size_hm null_slots)" "passed null_slots 29 0"
    "state (probe_slot null_slots 29 0) = DELETED" "\<not> live_key null_slots 29"
    by code_simp+
  have d: "passed full_slots 15 (unat (size_hm full_slots))"
    by (simp add: passed_def less_10_cases probe_slot_def probe_index_def bucket_index_def
        full_slots_def addr_hash_def ref_eq_def)
  have 1: "add_entry_oa wrapped_slots \<lparr> key = 19, value = 3, state = ACTIVE \<rparr>
             = Some (0, wrapped_slots)"
    using add_entry_probe_places
      [OF wf(1), of "\<lparr> key = 19, value = 3, state = ACTIVE \<rparr>" 1] a
    by simp
  have 2: "add_entry_oa wrapped_slots \<lparr> key = 29, value = 3, state = ACTIVE \<rparr>
       = Some (1, wrapped_slots\<lparr> backing :=
            (backing wrapped_slots)[1 := \<lparr> key = 29, value = 3, state = ACTIVE \<rparr>] \<rparr>)"
    using add_entry_probe_places
      [OF wf(1), of "\<lparr> key = 29, value = 3, state = ACTIVE \<rparr>" 2] b pi(3)
    by simp
  have 3: "add_entry_oa null_slots \<lparr> key = 29, value = 3, state = ACTIVE \<rparr>
       = Some (1, null_slots\<lparr> backing :=
            (backing null_slots)[9 := \<lparr> key = 29, value = 3, state = ACTIVE \<rparr>] \<rparr>)"
    using add_entry_probe_places
      [OF wf(2), of "\<lparr> key = 29, value = 3, state = ACTIVE \<rparr>" 0] c pi(4)
    by simp
  have 4: "add_entry_oa full_slots \<lparr> key = 15, value = 3, state = ACTIVE \<rparr> = Some (0, full_slots)"
    using add_entry_probe_places
      [OF wf(3), of "\<lparr> key = 15, value = 3, state = ACTIVE \<rparr>" 0] d
    by simp
  show ?thesis
    by (intro conjI wf pi a b c d 1 2 3 4)
qed

section \<open>The insertion probe at a tombstone\<close>

text \<open>
  In \<open>tombstone_table\<close> key 19 starts its probe at index 9, a \<open>DELETED\<close>
  slot, and lives in slot 0, the next one of the probe. \<open>add_entry\<close> of key 19
  returns 1 and stores the entry into slot 9; slot 0 keeps the older entry.
\<close>

lemma add_entry_misses_key_behind_tombstone:
  "(case tombstone_table of
      None \<Rightarrow> False
    | Some t \<Rightarrow>
       compress t (hashcode t 19) = Some 9
       \<and> map_option state (arr_read (backing t) 9) = Some DELETED
       \<and> update_index t 9 = Some 0
       \<and> arr_read (backing t) 0 = Some \<lparr> key = 19, value = 2, state = ACTIVE \<rparr>
       \<and> (case add_entry_oa t \<lparr> key = 19, value = 3, state = ACTIVE \<rparr> of
            None \<Rightarrow> False
          | Some (r, t') \<Rightarrow>
             r = 1
             \<and> arr_read (backing t') 9 = Some \<lparr> key = 19, value = 3, state = ACTIVE \<rparr>
             \<and> arr_read (backing t') 0 = Some \<lparr> key = 19, value = 2, state = ACTIVE \<rparr>))"
  by code_simp

text \<open>
  Claim C3. No reachable table has two live entries with equal keys. The table after
  \<open>add 9\<close>, \<open>add 19\<close>, \<open>remove 9\<close>, \<open>add 19\<close> has two \<open>ACTIVE\<close> slots, both
  with key 19, which the table's equality function takes for equal.
\<close>

theorem two_live_entries_with_one_key:
  "(case duplicate_table of
      None \<Rightarrow> False
    | Some t \<Rightarrow>
       live_slots t = [\<lparr> key = 19, value = 2, state = ACTIVE \<rparr>,
                       \<lparr> key = 19, value = 3, state = ACTIVE \<rparr>]
       \<and> equals t 19 19 = 1
       \<and> hashmap_size t = 2)"
  by code_simp

text \<open>
  Claim C4. In every reachable table the stored count is the number of live entries.
  The resize that the tenth operation triggers drops one of the two entries of key
  19 and leaves the count as it was: the table then counts 8 entries and has 7
  \<open>ACTIVE\<close> slots.
\<close>

theorem count_differs_from_live_entries:
  "(case grown_table of
      None \<Rightarrow> False
    | Some t \<Rightarrow> hashmap_size t = 8 \<and> length (live_slots t) = 7 \<and> size_hm t = 20)"
  by code_simp

text \<open>
  Claim C6. A successful resize does not change what \<open>get\<close> returns for a live key.
  In \<open>loaded_table\<close>, where the load test holds, \<open>get 19\<close> returns 3; after
  \<open>resize\<close> to twice the capacity, and after the \<open>add\<close> of a new key that calls
  it, \<open>get 19\<close> returns 2.
\<close>

theorem resize_changes_get:
  "(case loaded_table of
      None \<Rightarrow> False
    | Some t \<Rightarrow>
       hashmap_get_oa t 19 = Some 3
       \<and> load_exceeded t
       \<and> (case resize_oa True t (size_hm t * 2) of
            None \<Rightarrow> False
          | Some (r, t') \<Rightarrow> r = 1 \<and> size_hm t' = 20 \<and> hashmap_get_oa t' 19 = Some 2)
       \<and> (case hashmap_add_oa True t 6 16 of
            None \<Rightarrow> False
          | Some (r, t') \<Rightarrow> r = 1 \<and> size_hm t' = 20 \<and> hashmap_get_oa t' 19 = Some 2))"
  by code_simp

section \<open>Inserting a key that is present\<close>

text \<open>
  Claim C2 as stated fails on the capacity: in the chained table of ten buckets with
  the seven keys 1 to 7, \<open>add\<close> of key 1 returns 0 and leaves a table of twenty
  buckets.
\<close>

theorem rejected_add_doubles_capacity:
  "(case seven_table of
      None \<Rightarrow> False
    | Some t \<Rightarrow>
       size_hm t = 10 \<and> length (backing t) = 10 \<and> hashmap_size t = 7
       \<and> hashmap_get t 1 = Some 11
       \<and> (case hashmap_add True True t 1 99 of
            None \<Rightarrow> False
          | Some (r, t') \<Rightarrow>
             r = 0 \<and> size_hm t' = 20 \<and> length (backing t') = 20 \<and> hashmap_size t' = 7
             \<and> hashmap_get t' 1 = Some 11))"
  by code_simp

text \<open>
  The load test of \<open>add\<close>,
  \<open>self->nentries * LOAD_FACTOR_INVERSE >= self->size\<close>, on the reals: the count
  times 1.5 is at least the capacity.
\<close>

lemma load_exceeded_real:
  "load_exceeded self \<longleftrightarrow> real (unat (size_hm self)) \<le> real (unat (nentries self)) * 1.5"
proof -
  have "real (unat (size_hm self)) \<le> real (unat (nentries self)) * 1.5
      \<longleftrightarrow> real (2 * unat (size_hm self)) \<le> real (3 * unat (nentries self))"
    by (simp add: field_simps)
  also have "\<dots> \<longleftrightarrow> 2 * unat (size_hm self) \<le> 3 * unat (nentries self)"
    by (rule of_nat_le_iff)
  finally show ?thesis
    by (simp add: load_exceeded_def)
qed

text \<open>
  Claim C2, as amended. In a well-formed chained table with a capacity below
  \<open>2 ^ 30\<close>, whose nodes are in the chains of their buckets and have pairwise
  unequal keys, with an equality that is symmetric and transitive and respected by the
  hash, \<open>add\<close> of a key that is present returns 0 and leaves the count, the set
  of entries and the result of \<open>get\<close> for every key as they were, so that the
  first value stays retrievable. The capacity is doubled, and the backing array with
  it, when the count times 1.5 is at least the capacity and \<open>calloc\<close> succeeds;
  otherwise the table is left exactly as it was.
\<close>

theorem add_present_key:
  assumes "wf_table self" and "uint (size_hm self) < 2 ^ 30"
    and "placed self" and "unique_keys self"
    and "hash_respects self" and "equals_sym self" and "equals_trans self"
    and "present self k"
  shows "\<exists>t. hashmap_add calloc_ok malloc_ok self k v = Some (0, t)
           \<and> hashmap_size t = hashmap_size self
           \<and> set (entries t) = set (entries self)
           \<and> (\<forall>k'. hashmap_get t k' = hashmap_get self k')
           \<and> size_hm t
               = (if real (unat (size_hm self)) \<le> real (unat (hashmap_size self)) * 1.5 \<and> calloc_ok
                  then size_hm self * 2 else size_hm self)
           \<and> (if real (unat (size_hm self)) \<le> real (unat (hashmap_size self)) * 1.5 \<and> calloc_ok
               then length (backing t) = 2 * length (backing self)
               else t = self)"
proof -
  have le: "real (unat (size_hm self)) \<le> real (unat (hashmap_size self)) * 1.5
              \<longleftrightarrow> load_exceeded self"
    by (simp only: hashmap_size_def load_exceeded_real)
  have "\<exists>t. hashmap_add calloc_ok malloc_ok self k v = Some (0, t)
           \<and> hashmap_size t = hashmap_size self
           \<and> set (entries t) = set (entries self)
           \<and> (\<forall>k'. hashmap_get t k' = hashmap_get self k')
           \<and> size_hm t = (if load_exceeded self \<and> calloc_ok then size_hm self * 2 else size_hm self)
           \<and> (if load_exceeded self \<and> calloc_ok then length (backing t) = 2 * length (backing self)
               else t = self)"
  proof (cases "load_exceeded self \<and> calloc_ok")
  case False
  have "hashmap_add calloc_ok malloc_ok self k v = Some (0, self)"
  proof (cases "load_exceeded self")
    case True
    with False have "\<not> calloc_ok"
      by simp
    with True show ?thesis
      by (simp add: hashmap_add_def resize_def)
  next
    case False
    obtain i e where "compress self (hashcode self k) = Some i"
      and "arr_read (backing self) i = Some (backing self ! bucket_index self k)"
      and "chain_find (equals self) k (backing self ! bucket_index self k) = Some e"
      using assms(1,3,5,8) by (rule present_refused)
    with False show ?thesis
      by (simp add: hashmap_add_def)
  qed
  with False show ?thesis
    by auto
next
  case True
  have nz: "size_hm self \<noteq> 0" and len: "length (backing self) = unat (size_hm self)"
    using assms(1) by (simp_all add: wf_table_def)
  note d = double_size [OF nz assms(2)]
  from resize_props [OF assms(1) d(1,2)] obtain t where
    t: "resize True self (size_hm self * 2) = Some (1, t)" "wf_table t"
       "size_hm t = size_hm self * 2" "same_fields t self"
       "set (entries t) = set (entries self)" "placed t"
    by blast
  have fn: "hashcode t = hashcode self" "equals t = equals self" "nentries t = nentries self"
    using t(4) by (simp_all add: same_fields_def)
  have hrt: "hash_respects t"
    using assms(5) fn by (simp add: hash_respects_def)
  have prt: "present t k"
    using assms(8) fn t(5) by (simp add: present_def)
  obtain i e where "compress t (hashcode t k) = Some i"
    and "arr_read (backing t) i = Some (backing t ! bucket_index t k)"
    and "chain_find (equals t) k (backing t ! bucket_index t k) = Some e"
    using t(2,6) hrt prt by (rule present_refused)
  with True t(1) have add: "hashmap_add calloc_ok malloc_ok self k v = Some (0, t)"
    by (simp add: hashmap_add_def)
  have get: "hashmap_get t k' = hashmap_get self k'" for k'
    using assms(1) t(2) assms(3) t(6) fn(1,2) t(5) assms(5) assms(4) assms(6) assms(7)
    by (rule get_same_entries)
  have "length (backing t) = 2 * length (backing self)"
    using t(2,3) d(3) len by (simp add: wf_table_def)
  with True add get t(3,5) fn(3) show ?thesis
    by (simp add: hashmap_size_def)
  qed
  then show ?thesis
    unfolding le .
qed

lemma replicate_10:
  "replicate 10 x = [x, x, x, x, x, x, x, x, x, x]"
  by (simp add: numeral_eq_Suc)

lemma seven_table_eq: "seven_table = Some seven_chains"
  by (simp add: seven_table_def seven_chains_def hashmap_new_def hashmap_init_def
      HASHMAP_INIT_SIZE_def hashmap_add_def load_exceeded_def compress_def addr_hash_def
      ref_eq_def arr_read_def in_bounds_def add_entry_def fresh_mem_def replicate_10)

lemma seven_chains_invariant:
  "wf_table seven_chains" "uint (size_hm seven_chains) < 2 ^ 30"
  "placed seven_chains" "unique_keys seven_chains"
  "hash_respects seven_chains" "equals_sym seven_chains" "equals_trans seven_chains"
proof -
  show "wf_table seven_chains" "uint (size_hm seven_chains) < 2 ^ 30"
    by (simp_all add: wf_table_def seven_chains_def)
  show "placed seven_chains"
    by code_simp
  show "unique_keys seven_chains"
    by code_simp
  show "hash_respects seven_chains" "equals_sym seven_chains" "equals_trans seven_chains"
    by (rule default_functions_ok; simp add: seven_chains_def)+
qed

lemma null_chains_invariant:
  "wf_table null_chains" "uint (size_hm null_chains) < 2 ^ 30"
  "placed null_chains" "unique_keys null_chains"
  "hash_respects null_chains" "equals_sym null_chains" "equals_trans null_chains"
proof -
  show "wf_table null_chains" "uint (size_hm null_chains) < 2 ^ 30"
    by (simp_all add: wf_table_def null_chains_def)
  show "placed null_chains"
    by code_simp
  show "unique_keys null_chains"
    by code_simp
  show "hash_respects null_chains" "equals_sym null_chains" "equals_trans null_chains"
    by (rule default_functions_ok; simp add: null_chains_def)+
qed

theorem add_present_key_witness:
  "wf_table seven_chains \<and> uint (size_hm seven_chains) < 2 ^ 30
   \<and> placed seven_chains \<and> unique_keys seven_chains \<and> present seven_chains 1
   \<and> real (unat (size_hm seven_chains)) \<le> real (unat (hashmap_size seven_chains)) * 1.5
   \<and> (\<exists>t. hashmap_add True True seven_chains 1 99 = Some (0, t)
          \<and> hashmap_size t = hashmap_size seven_chains
          \<and> set (entries t) = set (entries seven_chains)
          \<and> (\<forall>k'. hashmap_get t k' = hashmap_get seven_chains k')
          \<and> size_hm t = size_hm seven_chains * 2
          \<and> length (backing t) = 2 * length (backing seven_chains))
   \<and> hashmap_add False True seven_chains 1 99 = Some (0, seven_chains)
   \<and> wf_table null_chains \<and> placed null_chains \<and> unique_keys null_chains
   \<and> present null_chains 5
   \<and> \<not> real (unat (size_hm null_chains)) \<le> real (unat (hashmap_size null_chains)) * 1.5
   \<and> hashmap_add True True null_chains 5 99 = Some (0, null_chains)"
proof -
  have p: "present seven_chains 1" "present null_chains 5"
    by code_simp+
  have l: "real (unat (size_hm seven_chains)) \<le> real (unat (hashmap_size seven_chains)) * 1.5"
    "\<not> real (unat (size_hm null_chains)) \<le> real (unat (hashmap_size null_chains)) * 1.5"
    by (simp_all add: seven_chains_def null_chains_def hashmap_size_def)
  have 1: "\<exists>t. hashmap_add True True seven_chains 1 99 = Some (0, t)
          \<and> hashmap_size t = hashmap_size seven_chains
          \<and> set (entries t) = set (entries seven_chains)
          \<and> (\<forall>k'. hashmap_get t k' = hashmap_get seven_chains k')
          \<and> size_hm t = size_hm seven_chains * 2
          \<and> length (backing t) = 2 * length (backing seven_chains)"
    using add_present_key [OF seven_chains_invariant p(1), of True True 99] l(1)
    by simp
  have 2: "hashmap_add False True seven_chains 1 99 = Some (0, seven_chains)"
    using add_present_key [OF seven_chains_invariant p(1), of False True 99]
    by simp
  have 3: "hashmap_add True True null_chains 5 99 = Some (0, null_chains)"
    using add_present_key [OF null_chains_invariant p(2), of True True 99] l(2)
    by simp
  show ?thesis
    by (intro conjI seven_chains_invariant(1-4) null_chains_invariant(1,3,4) p l 1 2 3)
qed

section \<open>The load test of add\<close>

text \<open>
  Claim C5 as stated fails when \<open>calloc\<close> has no memory for the new array. In
  the tables of ten buckets, or slots, with the seven keys 1 to 7 the count times 1.5
  is at least the capacity; \<open>add\<close> of the new key 8 then calls \<open>resize\<close>,
  and with \<open>calloc\<close> returning \<open>NULL\<close> it returns 0: the capacity is still
  10, the backing array as long as before, and the key is not inserted.
\<close>

theorem failed_allocation_keeps_capacity:
  "real (unat (size_hm seven_chains)) \<le> real (unat (hashmap_size seven_chains)) * 1.5
   \<and> size_hm seven_chains = 10
   \<and> (case hashmap_add False True seven_chains 8 18 of
        None \<Rightarrow> False
      | Some (r, t) \<Rightarrow> r = 0 \<and> size_hm t = 10 \<and> length (backing t) = 10
          \<and> hashmap_size t = 7 \<and> hashmap_get t 8 = Some NULL)
   \<and> real (unat (size_hm seven_slots)) \<le> real (unat (hashmap_size seven_slots)) * 1.5
   \<and> size_hm seven_slots = 10
   \<and> (case hashmap_add_oa False seven_slots 8 18 of
        None \<Rightarrow> False
      | Some (r, t) \<Rightarrow> r = 0 \<and> size_hm t = 10 \<and> length (backing t) = 10
          \<and> hashmap_size t = 7 \<and> hashmap_get_oa t 8 = Some NULL)"
proof (intro conjI)
  show "real (unat (size_hm seven_chains)) \<le> real (unat (hashmap_size seven_chains)) * 1.5"
    "real (unat (size_hm seven_slots)) \<le> real (unat (hashmap_size seven_slots)) * 1.5"
    "size_hm seven_chains = 10" "size_hm seven_slots = 10"
    by (simp_all add: seven_chains_def seven_slots_def hashmap_size_def)
  show "case hashmap_add False True seven_chains 8 18 of
        None \<Rightarrow> False
      | Some (r, t) \<Rightarrow> r = 0 \<and> size_hm t = 10 \<and> length (backing t) = 10
          \<and> hashmap_size t = 7 \<and> hashmap_get t 8 = Some NULL"
    by code_simp
  show "case hashmap_add_oa False seven_slots 8 18 of
        None \<Rightarrow> False
      | Some (r, t) \<Rightarrow> r = 0 \<and> size_hm t = 10 \<and> length (backing t) = 10
          \<and> hashmap_size t = 7 \<and> hashmap_get_oa t 8 = Some NULL"
    by code_simp
qed

text \<open>
  Claim C5, as amended. On a well-formed table of either variant with a capacity below
  \<open>2 ^ 30\<close>, \<open>add\<close> returns for every key and value, and the backing array
  afterwards has as many elements as the capacity says. When the count times 1.5 is at
  least the capacity and \<open>calloc\<close> succeeds, the capacity afterwards is exactly
  twice the capacity before, whether the key is then stored or refused; when the count
  times 1.5 is at least the capacity and \<open>calloc\<close> fails, \<open>add\<close> returns 0
  and the table is as it was; when the count times 1.5 is below the capacity, the
  capacity is unchanged.
\<close>

theorem add_checks_load_and_doubles:
  "(wf_table self \<and> uint (size_hm self) < 2 ^ 30 \<longrightarrow>
      (\<exists>r t. hashmap_add calloc_ok malloc_ok self k v = Some (r, t)
         \<and> length (backing t) = unat (size_hm t)
         \<and> (if real (unat (size_hm self)) \<le> real (unat (hashmap_size self)) * 1.5
            then if calloc_ok
                 then size_hm t = size_hm self * 2 \<and> unat (size_hm t) = 2 * unat (size_hm self)
                 else r = 0 \<and> t = self
            else size_hm t = size_hm self)))
   \<and> (wf_table slots \<and> uint (size_hm slots) < 2 ^ 30 \<longrightarrow>
      (\<exists>r t. hashmap_add_oa calloc_ok slots k v = Some (r, t)
         \<and> length (backing t) = unat (size_hm t)
         \<and> (if real (unat (size_hm slots)) \<le> real (unat (hashmap_size slots)) * 1.5
            then if calloc_ok
                 then size_hm t = size_hm slots * 2 \<and> unat (size_hm t) = 2 * unat (size_hm slots)
                 else r = 0 \<and> t = slots
            else size_hm t = size_hm slots)))"
  unfolding hashmap_size_def load_exceeded_real [symmetric]
proof (intro conjI impI)
  assume a: "wf_table self \<and> uint (size_hm self) < 2 ^ 30"
  then have wf: "wf_table self" and b: "uint (size_hm self) < 2 ^ 30"
    by simp_all
  from wf have "size_hm self \<noteq> 0"
    by (simp add: wf_table_def)
  then have d: "unat (size_hm self * 2) = 2 * unat (size_hm self)"
    using b by (rule double_size(3))
  from hashmap_add_capacity [OF wf b] obtain r t where
    t: "hashmap_add calloc_ok malloc_ok self k v = Some (r, t)"
    "size_hm t = (if load_exceeded self \<and> calloc_ok then size_hm self * 2 else size_hm self)"
    "wf_table t" "load_exceeded self \<and> \<not> calloc_ok \<longrightarrow> r = 0 \<and> t = self"
    by blast
  from t(3) have "length (backing t) = unat (size_hm t)"
    by (simp add: wf_table_def)
  with t(1,2,4) d
  show "\<exists>r t. hashmap_add calloc_ok malloc_ok self k v = Some (r, t)
         \<and> length (backing t) = unat (size_hm t)
         \<and> (if load_exceeded self
            then if calloc_ok
                 then size_hm t = size_hm self * 2 \<and> unat (size_hm t) = 2 * unat (size_hm self)
                 else r = 0 \<and> t = self
            else size_hm t = size_hm self)"
    by (cases "load_exceeded self"; cases calloc_ok) simp_all
next
  assume a: "wf_table slots \<and> uint (size_hm slots) < 2 ^ 30"
  then have wf: "wf_table slots" and b: "uint (size_hm slots) < 2 ^ 30"
    by simp_all
  from wf have "size_hm slots \<noteq> 0"
    by (simp add: wf_table_def)
  then have d: "unat (size_hm slots * 2) = 2 * unat (size_hm slots)"
    using b by (rule double_size(3))
  from hashmap_add_oa_capacity [OF wf b] obtain r t where
    t: "hashmap_add_oa calloc_ok slots k v = Some (r, t)"
    "size_hm t = (if load_exceeded slots \<and> calloc_ok then size_hm slots * 2 else size_hm slots)"
    "wf_table t" "load_exceeded slots \<and> \<not> calloc_ok \<longrightarrow> r = 0 \<and> t = slots"
    by blast
  from t(3) have "length (backing t) = unat (size_hm t)"
    by (simp add: wf_table_def)
  with t(1,2,4) d
  show "\<exists>r t. hashmap_add_oa calloc_ok slots k v = Some (r, t)
         \<and> length (backing t) = unat (size_hm t)
         \<and> (if load_exceeded slots
            then if calloc_ok
                 then size_hm t = size_hm slots * 2 \<and> unat (size_hm t) = 2 * unat (size_hm slots)
                 else r = 0 \<and> t = slots
            else size_hm t = size_hm slots)"
    by (cases "load_exceeded slots"; cases calloc_ok) simp_all
qed

theorem add_checks_load_and_doubles_witness:
  "wf_table seven_chains \<and> uint (size_hm seven_chains) < 2 ^ 30
   \<and> real (unat (size_hm seven_chains)) \<le> real (unat (hashmap_size seven_chains)) * 1.5
   \<and> (\<exists>r t. hashmap_add True True seven_chains 8 18 = Some (r, t) \<and> size_hm t = 20
          \<and> length (backing t) = 20)
   \<and> hashmap_add False True seven_chains 8 18 = Some (0, seven_chains)
   \<and> wf_table null_chains \<and> uint (size_hm null_chains) < 2 ^ 30
   \<and> \<not> real (unat (size_hm null_chains)) \<le> real (unat (hashmap_size null_chains)) * 1.5
   \<and> (\<exists>r t. hashmap_add True True null_chains 8 18 = Some (r, t) \<and> size_hm t = 10
          \<and> length (backing t) = 10)
   \<and> wf_table seven_slots \<and> uint (size_hm seven_slots) < 2 ^ 30
   \<and> real (unat (size_hm seven_slots)) \<le> real (unat (hashmap_size seven_slots)) * 1.5
   \<and> (\<exists>r t. hashmap_add_oa True seven_slots 8 18 = Some (r, t) \<and> size_hm t = 20
          \<and> length (backing t) = 20)
   \<and> hashmap_add_oa False seven_slots 8 18 = Some (0, seven_slots)
   \<and> wf_table null_slots \<and> uint (size_hm null_slots) < 2 ^ 30
   \<and> \<not> real (unat (size_hm null_slots)) \<le> real (unat (hashmap_size null_slots)) * 1.5
   \<and> (\<exists>r t. hashmap_add_oa True null_slots 8 18 = Some (r, t) \<and> size_hm t = 10
          \<and> length (backing t) = 10)"
proof -
  have c: "wf_table seven_chains \<and> uint (size_hm seven_chains) < 2 ^ 30"
    and n: "wf_table null_chains \<and> uint (size_hm null_chains) < 2 ^ 30"
    and s: "wf_table seven_slots \<and> uint (size_hm seven_slots) < 2 ^ 30"
    and m: "wf_table null_slots \<and> uint (size_hm null_slots) < 2 ^ 30"
    by (simp_all add: wf_table_def seven_chains_def seven_slots_def null_chains_def
        null_slots_def)
  have l: "real (unat (size_hm seven_chains)) \<le> real (unat (hashmap_size seven_chains)) * 1.5"
    "\<not> real (unat (size_hm null_chains)) \<le> real (unat (hashmap_size null_chains)) * 1.5"
    "real (unat (size_hm seven_slots)) \<le> real (unat (hashmap_size seven_slots)) * 1.5"
    "\<not> real (unat (size_hm null_slots)) \<le> real (unat (hashmap_size null_slots)) * 1.5"
    by (simp_all add: seven_chains_def null_chains_def seven_slots_def null_slots_def
        hashmap_size_def)
  have z: "size_hm seven_chains = 10" "size_hm null_chains = 10"
    "size_hm seven_slots = 10" "size_hm null_slots = 10"
    by (simp_all add: seven_chains_def null_chains_def seven_slots_def null_slots_def)
  have 1: "\<exists>r t. hashmap_add True True seven_chains 8 18 = Some (r, t) \<and> size_hm t = 20
          \<and> length (backing t) = 20"
    using add_checks_load_and_doubles
      [of seven_chains True True 8 18 seven_slots, THEN conjunct1, rule_format, OF c] l(1) z(1)
    by auto
  have 2: "hashmap_add False True seven_chains 8 18 = Some (0, seven_chains)"
    using add_checks_load_and_doubles
      [of seven_chains False True 8 18 seven_slots, THEN conjunct1, rule_format, OF c] l(1)
    by auto
  have 3: "\<exists>r t. hashmap_add True True null_chains 8 18 = Some (r, t) \<and> size_hm t = 10
          \<and> length (backing t) = 10"
    using add_checks_load_and_doubles
      [of null_chains True True 8 18 null_slots, THEN conjunct1, rule_format, OF n] l(2) z(2)
    by auto
  have 4: "\<exists>r t. hashmap_add_oa True seven_slots 8 18 = Some (r, t) \<and> size_hm t = 20
          \<and> length (backing t) = 20"
    using add_checks_load_and_doubles
      [of seven_chains True True 8 18 seven_slots, THEN conjunct2, rule_format, OF s] l(3) z(3)
    by auto
  have 5: "hashmap_add_oa False seven_slots 8 18 = Some (0, seven_slots)"
    using add_checks_load_and_doubles
      [of seven_chains False True 8 18 seven_slots, THEN conjunct2, rule_format, OF s] l(3)
    by auto
  have 6: "\<exists>r t. hashmap_add_oa True null_slots 8 18 = Some (r, t) \<and> size_hm t = 10
          \<and> length (backing t) = 10"
    using add_checks_load_and_doubles
      [of null_chains True True 8 18 null_slots, THEN conjunct2, rule_format, OF m] l(4) z(4)
    by auto
  show ?thesis
    by (intro conjI c [THEN conjunct1] c [THEN conjunct2] n [THEN conjunct1] n [THEN conjunct2]
        s [THEN conjunct1] s [THEN conjunct2] m [THEN conjunct1] m [THEN conjunct2]
        l 1 2 3 4 5 6)
qed

section \<open>A key mapped to NULL\<close>

text \<open>
  Claim C10. When a key is present and the value stored with it is \<open>NULL\<close>,
  \<open>get\<close> returns \<open>NULL\<close> and \<open>contains\<close> returns 0. In the chained table the
  key is present when a node of the (well-formed, placed) table has a key equal to it,
  and its value is \<open>NULL\<close> when every such node stores \<open>NULL\<close>; in the
  open-addressing table the key is found at a step of its probe, and the slot there
  stores \<open>NULL\<close>.
\<close>

theorem null_value_reported_absent:
  "(wf_table self \<and> placed self \<and> hash_respects self \<and> present self k
      \<and> (\<forall>e \<in> set (entries self). equals self (key e) k \<noteq> 0 \<longrightarrow> value e = NULL)
     \<longrightarrow> hashmap_get self k = Some NULL \<and> hashmap_contains self k = Some 0)
   \<and> (wf_table slots \<and> found_at slots k' j
      \<and> value (backing slots ! probe_index slots k' j) = NULL
     \<longrightarrow> hashmap_get_oa slots k' = Some NULL \<and> hashmap_contains_oa slots k' = Some 0)"
proof (intro conjI impI)
  assume "wf_table self \<and> placed self \<and> hash_respects self \<and> present self k
      \<and> (\<forall>e \<in> set (entries self). equals self (key e) k \<noteq> 0 \<longrightarrow> value e = NULL)"
  then have "hashmap_get self k = Some NULL \<and> hashmap_contains self k = Some 0"
    by (intro get_null_value) simp_all
  then show "hashmap_get self k = Some NULL" and "hashmap_contains self k = Some 0"
    by simp_all
next
  assume "wf_table slots \<and> found_at slots k' j
      \<and> value (backing slots ! probe_index slots k' j) = NULL"
  then have "hashmap_get_oa slots k' = Some NULL \<and> hashmap_contains_oa slots k' = Some 0"
    by (intro get_null_value_oa [where j = j]) simp_all
  then show "hashmap_get_oa slots k' = Some NULL" and "hashmap_contains_oa slots k' = Some 0"
    by simp_all
qed

lemma null_value_table_eq: "null_value_table = Some null_chains"
  by (simp add: null_value_table_def null_chains_def hashmap_new_def hashmap_init_def
      HASHMAP_INIT_SIZE_def hashmap_add_def load_exceeded_def compress_def addr_hash_def
      arr_read_def in_bounds_def add_entry_def fresh_mem_def replicate_10)

lemma null_slots_table_eq: "null_slots_table = Some null_slots"
  by (simp add: null_slots_table_def null_slots_def hashmap_new_def hashmap_init_def
      HASHMAP_INIT_SIZE_def hashmap_add_oa_def hashmap_remove_oa_def load_exceeded_def compress_def addr_hash_def ref_eq_def
      arr_read_def arr_write_def in_bounds_def add_entry_oa_def find_entry_def update_index_def
      add_entry_probe.simps find_entry_probe.simps fresh_mem_def zero_slot_def replicate_10)

theorem null_value_reported_absent_witness:
  "present null_chains 5 \<and> hashmap_get null_chains 5 = Some NULL
   \<and> hashmap_contains null_chains 5 = Some 0
   \<and> found_at null_slots 19 1 \<and> hashmap_get_oa null_slots 19 = Some NULL
   \<and> hashmap_contains_oa null_slots 19 = Some 0"
proof -
  have c: "wf_table null_chains" "wf_table null_slots"
    by (simp_all add: wf_table_def null_chains_def null_slots_def)
  have p: "placed null_chains" "present null_chains 5"
    by code_simp+
  have h: "hash_respects null_chains"
    by (rule default_functions_ok; simp add: null_chains_def)
  have n: "\<forall>e \<in> set (entries null_chains). equals null_chains (key e) 5 \<noteq> 0 \<longrightarrow> value e = NULL"
    by code_simp
  have f: "found_at null_slots 19 1"
    by code_simp
  have v: "value (backing null_slots ! probe_index null_slots 19 1) = NULL"
    by code_simp
  note w = null_value_reported_absent [of null_chains 5 null_slots 19 1]
  have 1: "hashmap_get null_chains 5 = Some NULL \<and> hashmap_contains null_chains 5 = Some 0"
    using w [THEN conjunct1] c(1) p h n by blast
  have 2: "hashmap_get_oa null_slots 19 = Some NULL \<and> hashmap_contains_oa null_slots 19 = Some 0"
    using w [THEN conjunct2] c(2) f v by blast
  from 1 2 p f show ?thesis
    by simp
qed

end
